theory Spec2Isabelle
  imports Complex_Main "HOL-Library.Multiset"
begin

section \<open>Registry synchronisation and CSV reconciliation: a model of the portal's core\<close>

text \<open>
  The development follows two source files: the admin portal page
  (\<^verbatim>\<open>src/pages/AdminPortal.tsx\<close>: \<^verbatim>\<open>parseCSVLine\<close>, \<^verbatim>\<open>handleMasterSync\<close> with its local
  helpers \<^verbatim>\<open>getIdx\<close>, \<^verbatim>\<open>col\<close>, \<^verbatim>\<open>parseVal\<close>) and the application shell
  (\<^verbatim>\<open>src/unnamed/part_000\<close>: \<^verbatim>\<open>AsyncStorage\<close>, \<^verbatim>\<open>syncToCloud\<close>, \<^verbatim>\<open>handleMassImport\<close>,
  \<^verbatim>\<open>userCnicNormalized\<close>, \<^verbatim>\<open>userFiles\<close>).

  Conventions of the model.
  \<^item> A JavaScript string is a \<open>string\<close>: a list of 8-bit characters, read as the code
    units \<open>0..255\<close> (Latin-1). Texts with code units above 255 are outside the model;
    in particular the byte-order mark U+FEFF cannot occur, so the source's
    replacement of a leading byte-order mark leaves every text of the model unchanged.
  \<^item> A JavaScript number is a \<open>number\<close>: a finite value carried exactly as a rational,
    the two infinities, or NaN. The rounding of IEEE doubles and the sign of zero are
    not modelled; sums are always taken in the order in which the source adds.
  \<^item> \<^verbatim>\<open>undefined\<close> is \<open>None\<close> of an option type.
  \<^item> A JavaScript \<^verbatim>\<open>Map\<close> is an association list in insertion order.
\<close>

subsection \<open>JavaScript strings\<close>

definition isWhiteSpace :: "char \<Rightarrow> bool" where
  \<comment> \<open>WhiteSpace and LineTerminator code units below 256: TAB, LF, VT, FF, CR, SP, NBSP.\<close>
  "isWhiteSpace c =
     (c = CHR 0x09 \<or> c = CHR 0x0A \<or> c = CHR 0x0B \<or> c = CHR 0x0C \<or> c = CHR 0x0D
      \<or> c = CHR 0x20 \<or> c = CHR 0xA0)"

definition trimStart :: "string \<Rightarrow> string" where
  "trimStart s = dropWhile isWhiteSpace s"

definition trim :: "string \<Rightarrow> string" where
  \<comment> \<open>\<^verbatim>\<open>String.prototype.trim\<close>\<close>
  "trim s = rev (dropWhile isWhiteSpace (rev (dropWhile isWhiteSpace s)))"

definition isDigit :: "char \<Rightarrow> bool" where
  "isDigit c = (48 \<le> (of_char c :: nat) \<and> (of_char c :: nat) \<le> 57)"

definition digitVal :: "char \<Rightarrow> nat" where
  "digitVal c = of_char c - 48"

definition lowerChar :: "char \<Rightarrow> char" where
  \<comment> \<open>Lower-case mapping of one Latin-1 code unit: A-Z and the accented capitals
      U+00C0..U+00DE (without the multiplication sign U+00D7) move up by 32.\<close>
  "lowerChar c =
     (let n = (of_char c :: nat)
      in if (65 \<le> n \<and> n \<le> 90) \<or> (192 \<le> n \<and> n \<le> 222 \<and> n \<noteq> 215)
         then char_of (n + 32) else c)"

definition toLowerCase :: "string \<Rightarrow> string" where
  "toLowerCase s = map lowerChar s"

definition upperChar :: "char \<Rightarrow> string" where
  \<comment> \<open>Upper-case mapping of one Latin-1 code unit: a-z and U+00E0..U+00FE (without the
      division sign U+00F7) move down by 32, sharp s becomes SS. The capitals of U+00B5
      and U+00FF lie above 255; they are left in place, which no comparison with an
      ASCII literal can tell apart.\<close>
  "upperChar c =
     (let n = (of_char c :: nat)
      in if (97 \<le> n \<and> n \<le> 122) \<or> (224 \<le> n \<and> n \<le> 254 \<and> n \<noteq> 247)
         then [char_of (n - 32)]
         else if n = 223 then ''SS'' else [c])"

definition toUpperCase :: "string \<Rightarrow> string" where
  "toUpperCase s = concat (map upperChar s)"

definition orElse :: "string option \<Rightarrow> string \<Rightarrow> string" where
  \<comment> \<open>\<^verbatim>\<open>v || d\<close> on a string or undefined: the default replaces undefined and the
      empty string.\<close>
  "orElse v d = (case v of None \<Rightarrow> d | Some s \<Rightarrow> if s = [] then d else s)"

subsection \<open>JavaScript numbers and \<^verbatim>\<open>parseFloat\<close>\<close>

datatype number = Val rat | PosInfinity | NegInfinity | NaN

fun js_add :: "number \<Rightarrow> number \<Rightarrow> number" where
  \<comment> \<open>\<^verbatim>\<open>+\<close> on numbers, exact on finite values: the sum of the source wherever the
      exact sum is a double.\<close>
  "js_add (Val a) (Val b) = Val (a + b)"
| "js_add NaN _ = NaN"
| "js_add _ NaN = NaN"
| "js_add PosInfinity NegInfinity = NaN"
| "js_add NegInfinity PosInfinity = NaN"
| "js_add PosInfinity _ = PosInfinity"
| "js_add _ PosInfinity = PosInfinity"
| "js_add NegInfinity _ = NegInfinity"
| "js_add _ NegInfinity = NegInfinity"

fun js_neg :: "number \<Rightarrow> number" where
  "js_neg (Val a) = Val (- a)"
| "js_neg PosInfinity = NegInfinity"
| "js_neg NegInfinity = PosInfinity"
| "js_neg NaN = NaN"

definition truthy :: "number \<Rightarrow> bool" where
  \<comment> \<open>ToBoolean on a number: zero and NaN are falsy.\<close>
  "truthy n = (n \<noteq> NaN \<and> n \<noteq> Val 0)"

definition digitsValue :: "string \<Rightarrow> nat" where
  \<comment> \<open>The mathematical value of a run of decimal digits.\<close>
  "digitsValue ds = foldl (\<lambda>a c. 10 * a + digitVal c) 0 ds"

definition pow10 :: "int \<Rightarrow> rat" where
  "pow10 k = (if 0 \<le> k then 10 ^ nat k else 1 / 10 ^ nat (- k))"

definition signedInteger :: "string \<Rightarrow> int option" where
  \<comment> \<open>SignedInteger at the head of the text: an optional sign and at least one digit.\<close>
  "signedInteger s =
     (case s of
        [] \<Rightarrow> None
      | c # r \<Rightarrow>
          if c = CHR ''+'' then
            (if takeWhile isDigit r = [] then None
             else Some (int (digitsValue (takeWhile isDigit r))))
          else if c = CHR ''-'' then
            (if takeWhile isDigit r = [] then None
             else Some (- int (digitsValue (takeWhile isDigit r))))
          else
            (if takeWhile isDigit s = [] then None
             else Some (int (digitsValue (takeWhile isDigit s)))))"

definition exponentPart :: "string \<Rightarrow> int" where
  \<comment> \<open>The exponent that the longest literal prefix takes from the text after the
      mantissa: an e or E followed by a SignedInteger, and nothing (exponent 0) when
      that does not follow.\<close>
  "exponentPart s =
     (case s of
        [] \<Rightarrow> 0
      | c # r \<Rightarrow>
          if c = CHR ''e'' \<or> c = CHR ''E''
          then (case signedInteger r of None \<Rightarrow> 0 | Some e \<Rightarrow> e)
          else 0)"

definition decimalValue :: "string \<Rightarrow> string \<Rightarrow> int \<Rightarrow> rat" where
  \<comment> \<open>The mathematical value of a literal with integer digits \<open>ip\<close>, fraction digits
      \<open>fp\<close> and exponent \<open>e\<close>. \<^verbatim>\<open>parseFloat\<close> returns the double nearest to it: the
      same value wherever that value is a double (every integer up to \<open>2^53\<close> is),
      a rounded one, Infinity or 0 elsewhere. Statements about values stay within
      the first range.\<close>
  "decimalValue ip fp e = of_nat (digitsValue (ip @ fp)) * pow10 (e - int (length fp))"

definition strUnsignedDecimalLiteral :: "string \<Rightarrow> number option" where
  \<comment> \<open>The value of the longest prefix that is a StrUnsignedDecimalLiteral
      (Infinity, digits with an optional fraction and exponent, or a fraction that
      starts with the point); \<open>None\<close> when no prefix is one.\<close>
  "strUnsignedDecimalLiteral s =
     (if take 8 s = ''Infinity'' then Some PosInfinity
      else
        let ip = takeWhile isDigit s; r1 = dropWhile isDigit s
        in (case r1 of
              [] \<Rightarrow> if ip = [] then None else Some (Val (decimalValue ip [] 0))
            | c # r2 \<Rightarrow>
                if c = CHR ''.'' then
                  (let fp = takeWhile isDigit r2; r3 = dropWhile isDigit r2
                   in if ip = [] \<and> fp = [] then None
                      else Some (Val (decimalValue ip fp (exponentPart r3))))
                else if ip = [] then None
                else Some (Val (decimalValue ip [] (exponentPart r1)))))"

definition parseFloat :: "string \<Rightarrow> number" where
  \<comment> \<open>The built-in \<^verbatim>\<open>parseFloat\<close>: leading white space is dropped, then the longest
      prefix that is a StrDecimalLiteral (an optional sign and an unsigned literal) is
      evaluated; NaN when there is no such prefix.\<close>
  "parseFloat s =
     (case trimStart s of
        [] \<Rightarrow> NaN
      | c # r \<Rightarrow>
          if c = CHR ''-'' then
            (case strUnsignedDecimalLiteral r of None \<Rightarrow> NaN | Some v \<Rightarrow> js_neg v)
          else if c = CHR ''+'' then
            (case strUnsignedDecimalLiteral r of None \<Rightarrow> NaN | Some v \<Rightarrow> v)
          else
            (case strUnsignedDecimalLiteral (c # r) of None \<Rightarrow> NaN | Some v \<Rightarrow> v))"

definition parseVal :: "string option \<Rightarrow> number" where
  \<comment> \<open>\<^verbatim>\<open>if (!v || v.toUpperCase() === 'NULL' || v === '-') return 0;
      return parseFloat(v.replace(/,/g, '').replace(/[()]/g, '')) || 0;\<close>\<close>
  "parseVal v =
     (case v of
        None \<Rightarrow> Val 0
      | Some s \<Rightarrow>
          if s = [] \<or> toUpperCase s = ''NULL'' \<or> s = ''-'' then Val 0
          else
            let n = parseFloat
                      (filter (\<lambda>c. c \<noteq> CHR ''('' \<and> c \<noteq> CHR '')'')
                         (filter (\<lambda>c. c \<noteq> CHR '','') s))
            in if truthy n then n else Val 0)"

subsection \<open>The CSV tokenizer and header resolution\<close>

fun parseCSVLine_loop :: "string list \<Rightarrow> string \<Rightarrow> bool \<Rightarrow> string \<Rightarrow> string list" where
  \<comment> \<open>The \<^verbatim>\<open>for (const char of line)\<close> loop with its variables \<^verbatim>\<open>columns\<close>, \<^verbatim>\<open>cur\<close>,
      \<^verbatim>\<open>inQ\<close>, and the final push. \<open>CHR 0x22\<close> is the double quote.\<close>
  "parseCSVLine_loop columns cur inQ [] = columns @ [trim cur]"
| "parseCSVLine_loop columns cur inQ (char # rest) =
     (if char = CHR 0x22 then parseCSVLine_loop columns cur (\<not> inQ) rest
      else if char = CHR '','' \<and> \<not> inQ then parseCSVLine_loop (columns @ [trim cur]) [] inQ rest
      else parseCSVLine_loop columns (cur @ [char]) inQ rest)"

definition parseCSVLine :: "string \<Rightarrow> string list" where
  "parseCSVLine line = parseCSVLine_loop [] [] False line"

fun splitLines_loop :: "string \<Rightarrow> string \<Rightarrow> string list" where
  \<comment> \<open>\<^verbatim>\<open>text.split(/\r?\n/)\<close>: a line ends at LF, or at CR directly followed by LF.\<close>
  "splitLines_loop cur [] = [cur]"
| "splitLines_loop cur [c] = (if c = CHR 0x0A then [cur, []] else [cur @ [c]])"
| "splitLines_loop cur (c # d # rest) =
     (if c = CHR 0x0A then cur # splitLines_loop [] (d # rest)
      else if c = CHR 0x0D \<and> d = CHR 0x0A then cur # splitLines_loop [] rest
      else splitLines_loop (cur @ [c]) (d # rest))"

definition splitLines :: "string \<Rightarrow> string list" where
  "splitLines text = splitLines_loop [] text"

definition nonEmptyLines :: "string \<Rightarrow> string list" where
  \<comment> \<open>\<^verbatim>\<open>text.split(/\r?\n/).filter(l => l.trim() !== '')\<close>\<close>
  "nonEmptyLines text = filter (\<lambda>l. trim l \<noteq> []) (splitLines text)"

fun indexOf :: "'a list \<Rightarrow> 'a \<Rightarrow> nat option" where
  \<comment> \<open>\<^verbatim>\<open>Array.prototype.indexOf\<close>, with \<open>None\<close> for -1.\<close>
  "indexOf [] x = None"
| "indexOf (y # ys) x = (if y = x then Some 0 else map_option Suc (indexOf ys x))"

fun getIdx :: "string list \<Rightarrow> string list \<Rightarrow> nat option" where
  "getIdx normH [] = None"
| "getIdx normH (n # names) =
     (case indexOf normH (toLowerCase n) of Some i \<Rightarrow> Some i | None \<Rightarrow> getIdx normH names)"

definition col :: "string list \<Rightarrow> string list \<Rightarrow> string list \<Rightarrow> string option" where
  \<comment> \<open>\<^verbatim>\<open>i !== -1 ? arr[i]?.trim() : undefined\<close>; a row shorter than the header has
      \<^verbatim>\<open>arr[i]\<close> undefined.\<close>
  "col normH arr names =
     (case getIdx normH names of
        None \<Rightarrow> None
      | Some i \<Rightarrow> if i < length arr then Some (trim (arr ! i)) else None)"

subsection \<open>A \<^verbatim>\<open>Map\<close> in insertion order\<close>

type_synonym 'v jsmap = "(string \<times> 'v) list"

definition map_has :: "'v jsmap \<Rightarrow> string \<Rightarrow> bool" where
  "map_has m k = (map_of m k \<noteq> None)"

definition map_get :: "'v jsmap \<Rightarrow> string \<Rightarrow> 'v option" where
  "map_get m k = map_of m k"

definition map_set :: "'v jsmap \<Rightarrow> string \<Rightarrow> 'v \<Rightarrow> 'v jsmap" where
  \<comment> \<open>A present key keeps its place and takes the new value; a new key goes last.\<close>
  "map_set m k v =
     (if map_has m k then map (\<lambda>(k', v'). if k' = k then (k', v) else (k', v')) m
      else m @ [(k, v)])"

definition map_modify :: "'v jsmap \<Rightarrow> string \<Rightarrow> ('v \<Rightarrow> 'v) \<Rightarrow> 'v jsmap" where
  \<comment> \<open>Mutation of the object stored under a key (\<^verbatim>\<open>const prop = fileMap.get(k)!\<close>
      followed by assignments to the fields of \<^verbatim>\<open>prop\<close>).\<close>
  "map_modify m k f = map (\<lambda>(k', v'). if k' = k then (k', f v') else (k', v')) m"

definition map_values :: "'v jsmap \<Rightarrow> 'v list" where
  "map_values m = map snd m"

definition new_Map :: "(string \<times> 'v) list \<Rightarrow> 'v jsmap" where
  \<comment> \<open>\<^verbatim>\<open>new Map(entries)\<close>: the entries are set one after the other.\<close>
  "new_Map entries = foldl (\<lambda>m (k, v). map_set m k v) [] entries"

subsection \<open>The entities\<close>

record Transaction =
  seq :: nat
  transid :: int
  line_id :: number
  shortname :: string
  duedate :: string
  t_receivable :: number
  u_intno :: number
  u_intname :: string
  transtype :: string
  itemcode :: string
  plottype :: string
  currency :: string
  description :: string
  doctotal :: number
  t_status :: string
  t_balance :: number
  balduedeb :: number
  paysrc :: number
  amount_paid :: number
  receipt_date :: "string option"
  mode :: "string option"
  t_surcharge :: number

record User =
  user_id :: string
  cnic :: string
  name :: string
  email :: string
  phone :: string
  role :: string
  status :: string
  password :: string

record PropertyFile =
  fileNo :: string
  currencyNo :: string
  plotSize :: string
  plotValue :: number
  balance :: number
  receivable :: number
  totalReceivable :: number
  paymentReceived :: number
  surcharge :: number
  overdue :: number
  ownerName :: string
  ownerCNIC :: string
  fatherName :: string
  cellNo :: string
  regDate :: string
  address :: string
  plotNo :: string
  block :: string
  park :: string
  corner :: string
  mainBoulevard :: string
  transactions :: "Transaction list"

subsection \<open>Ingestion of the data rows (\<^verbatim>\<open>handleMasterSync\<close>)\<close>

definition normalizeCNIC :: "string \<Rightarrow> string" where
  \<comment> \<open>\<^verbatim>\<open>.replace(/[^0-9X]/g, '')\<close>, written at each of the four places that derive
      an identity key.\<close>
  "normalizeCNIC s = filter (\<lambda>c. isDigit c \<or> c = CHR ''X'') s"

definition rawCNIC_of :: "string list \<Rightarrow> string \<Rightarrow> string" where
  "rawCNIC_of normH line = orElse (col normH (parseCSVLine line) [''ocnic'', ''cnic'', ''u_ocnic'']) []"

definition itemCode_of :: "string list \<Rightarrow> string \<Rightarrow> string" where
  "itemCode_of normH line =
     orElse (col normH (parseCSVLine line) [''itemcode'', ''item_code'', ''u_itemcode'']) []"

definition paidVal_of :: "string list \<Rightarrow> string \<Rightarrow> number" where
  "paidVal_of normH line = parseVal (col normH (parseCSVLine line) [''reconsum'', ''paid''])"

definition osVal_of :: "string list \<Rightarrow> string \<Rightarrow> number" where
  "osVal_of normH line = parseVal (col normH (parseCSVLine line) [''balduedeb'', ''balance''])"

definition newUser :: "string list \<Rightarrow> string \<Rightarrow> User" where
  "newUser normH line =
     (let cols = parseCSVLine line;
          rawCNIC = rawCNIC_of normH line;
          normCNIC = normalizeCNIC rawCNIC
      in \<lparr> user_id = ''user-'' @ normCNIC,
           cnic = rawCNIC,
           name = orElse (col normH cols [''oname'', ''ownername'', ''name'']) ''SAP Member'',
           email = normCNIC @ ''@dinproperties.com.pk'',
           phone = orElse (col normH cols [''ocell'', ''cellno'']) ''-'',
           role = ''CLIENT'', status = ''Active'', password = ''password123'' \<rparr>)"

definition newFile :: "string list \<Rightarrow> string \<Rightarrow> User jsmap \<Rightarrow> PropertyFile" where
  \<comment> \<open>The object literal of \<^verbatim>\<open>fileMap.set(itemCode, {...})\<close>; \<open>userMap\<close> is the owner map
      after the row's owner has been entered, so the non-null assertion of
      \<^verbatim>\<open>userMap.get(normCNIC)!.name\<close> holds (lemma \<open>processRow_owner_present\<close>).\<close>
  "newFile normH line userMap =
     (let cols = parseCSVLine line;
          rawCNIC = rawCNIC_of normH line;
          normCNIC = normalizeCNIC rawCNIC;
          itemCode = itemCode_of normH line
      in \<lparr> fileNo = itemCode,
           currencyNo = orElse (col normH cols [''currencyno'', ''currency'']) ''-'',
           plotSize = orElse (col normH cols [''dscription'', ''description'', ''size'']) ''Plot'',
           plotValue = parseVal (col normH cols [''doctotal'']),
           balance = Val 0, receivable = Val 0, totalReceivable = Val 0,
           paymentReceived = Val 0, surcharge = Val 0, overdue = Val 0,
           ownerName = name (the (map_get userMap normCNIC)),
           ownerCNIC = rawCNIC,
           fatherName = orElse (col normH cols [''ofatname'', ''fathername'']) ''-'',
           cellNo = orElse (col normH cols [''ocell'', ''cellno'']) ''-'',
           regDate = orElse (col normH cols [''otrfdate'', ''regdate'']) ''-'',
           address = orElse (col normH cols [''opraddress'', ''address'']) ''-'',
           plotNo = orElse (col normH cols [''plot'', ''plotno'', ''u_plotno'']) ''-'',
           block = orElse (col normH cols [''block'', ''u_block'']) ''-'',
           park = orElse (col normH cols [''park'', ''u_park'']) ''-'',
           corner = orElse (col normH cols [''corner'', ''u_corner'']) ''-'',
           mainBoulevard = orElse (col normH cols [''mb'', ''mainboulevard'', ''u_mainbu'']) ''-'',
           transactions = [] \<rparr>)"

definition newTransaction :: "(nat \<Rightarrow> int) \<Rightarrow> string list \<Rightarrow> nat \<Rightarrow> string \<Rightarrow> number \<Rightarrow> Transaction" where
  \<comment> \<open>The object literal pushed onto \<^verbatim>\<open>prop.transactions\<close>; \<open>now idx\<close> is the reading of
      \<^verbatim>\<open>Date.now()\<close> while row \<open>idx\<close> is processed, \<open>pv\<close> is \<^verbatim>\<open>prop.plotValue\<close>.\<close>
  "newTransaction now normH idx line pv =
     (let cols = parseCSVLine line;
          itemCode = itemCode_of normH line
      in \<lparr> seq = idx, transid = now idx + int idx, line_id = Val 0, shortname = itemCode,
           duedate = orElse (col normH cols [''duedate'']) ''-'',
           t_receivable = parseVal (col normH cols [''receivable'']),
           u_intno = parseVal (col normH cols [''u_intno'']),
           u_intname = orElse (col normH cols [''u_intname'']) [],
           transtype = ''13'', itemcode = itemCode, plottype = ''Res'', currency = ''PKR'',
           description = [], doctotal = pv, t_status = ''Synced'',
           t_balance = Val 0, balduedeb = osVal_of normH line, paysrc = Val 0,
           amount_paid = paidVal_of normH line,
           receipt_date = col normH cols [''refdate''], mode = col normH cols [''mode''],
           t_surcharge = parseVal (col normH cols [''markup'', ''surcharge'']) \<rparr>)"

definition skipped :: "string list \<Rightarrow> string \<Rightarrow> bool" where
  \<comment> \<open>\<^verbatim>\<open>if (!normCNIC || !itemCode) return;\<close>\<close>
  "skipped normH line =
     (normalizeCNIC (rawCNIC_of normH line) = [] \<or> itemCode_of normH line = [])"

definition addRow :: "(nat \<Rightarrow> int) \<Rightarrow> string list \<Rightarrow> nat \<Rightarrow> string \<Rightarrow> PropertyFile \<Rightarrow> PropertyFile" where
  \<comment> \<open>The two \<^verbatim>\<open>+=\<close> on \<^verbatim>\<open>prop\<close> and the push of the row's transaction.\<close>
  "addRow now normH idx line prop =
     prop \<lparr> paymentReceived := js_add (paymentReceived prop) (paidVal_of normH line),
            balance := js_add (balance prop) (osVal_of normH line),
            transactions :=
              transactions prop @ [newTransaction now normH idx line (plotValue prop)] \<rparr>"

definition processRow ::
  "(nat \<Rightarrow> int) \<Rightarrow> string list \<Rightarrow> nat \<Rightarrow> string \<Rightarrow> User jsmap \<times> PropertyFile jsmap
     \<Rightarrow> User jsmap \<times> PropertyFile jsmap" where
  \<comment> \<open>The body of \<^verbatim>\<open>lines.slice(1).forEach((line, idx) => ...)\<close> on the pair
      \<open>(userMap, fileMap)\<close>.\<close>
  "processRow now normH idx line maps =
     (let userMap = fst maps; fileMap = snd maps;
          normCNIC = normalizeCNIC (rawCNIC_of normH line);
          itemCode = itemCode_of normH line
      in if skipped normH line then maps
         else
           let userMap1 = (if \<not> map_has userMap normCNIC
                           then map_set userMap normCNIC (newUser normH line) else userMap);
               fileMap1 = (if \<not> map_has fileMap itemCode
                           then map_set fileMap itemCode (newFile normH line userMap1)
                           else fileMap)
           in (userMap1, map_modify fileMap1 itemCode (addRow now normH idx line)))"

fun processRows ::
  "(nat \<Rightarrow> int) \<Rightarrow> string list \<Rightarrow> nat \<Rightarrow> string list \<Rightarrow> User jsmap \<times> PropertyFile jsmap
     \<Rightarrow> User jsmap \<times> PropertyFile jsmap" where
  \<comment> \<open>\<^verbatim>\<open>forEach\<close> over the data rows, \<open>idx\<close> counting from the given start.\<close>
  "processRows now normH idx [] maps = maps"
| "processRows now normH idx (line # rest) maps =
     processRows now normH (Suc idx) rest (processRow now normH idx line maps)"

record ImportData =
  data_users :: "User list"
  data_files :: "PropertyFile list"

definition headerOf :: "string \<Rightarrow> string list" where
  \<comment> \<open>\<^verbatim>\<open>normH\<close>: the cells of the header line, trimmed and lower-cased.\<close>
  "headerOf line = map (\<lambda>h. toLowerCase (trim h)) (parseCSVLine line)"

definition ingest :: "(nat \<Rightarrow> int) \<Rightarrow> string \<Rightarrow> (User jsmap \<times> PropertyFile jsmap) option" where
  \<comment> \<open>The body of the \<^verbatim>\<open>try\<close> block up to the two maps; \<open>None\<close> is
      \<^verbatim>\<open>throw new Error("Format")\<close>.\<close>
  "ingest now text =
     (case nonEmptyLines text of
        [] \<Rightarrow> None
      | [h] \<Rightarrow> None
      | h # r # rows \<Rightarrow> Some (processRows now (headerOf h) 0 (r # rows) ([], [])))"

subsection \<open>The durable local store (\<^verbatim>\<open>AsyncStorage\<close>)\<close>

text \<open>
  A promise is modelled by how it settles. IndexedDB is the environment: for one call
  of a store operation, \<open>db_open\<close> says how the promise of \<^verbatim>\<open>getDB\<close> settles, and \<open>tx\<close>
  what the transaction (for \<^verbatim>\<open>getItem\<close>: the request) does afterwards: it throws while
  it is set up inside the promise executor, it completes, it fires its error handler,
  or it fires neither handler (an abort).
\<close>

datatype error = DOMException string

datatype 'a promise = Fulfilled 'a | Rejected error | Pending

datatype tx_behaviour = TxThrows error | TxCompletes | TxErrors error | TxSilent

record idb_call =
  db_open :: "unit promise"
  tx :: tx_behaviour

datatype event =
    SetIsSyncing bool
  | SetUsers "User list"
  | SetAllFiles "PropertyFile list"
  | ConsoleError string
  | LocalPut string
  | PutAwaited string
  | RemoteUpsert string

definition setItem :: "idb_call \<Rightarrow> string \<Rightarrow> unit promise \<times> event list" where
  \<comment> \<open>\<^verbatim>\<open>try { const db = await getDB(); return new Promise(...) } catch (e) { console.error(...) }\<close>:
      only the awaited \<^verbatim>\<open>getDB\<close> is inside the reach of the \<^verbatim>\<open>catch\<close>; the promise that is
      returned without \<^verbatim>\<open>await\<close> settles the promise of \<^verbatim>\<open>setItem\<close> itself.\<close>
  "setItem b key =
     (case db_open b of
        Rejected e \<Rightarrow> (Fulfilled (), [ConsoleError ''Persistence Failure:''])
      | Pending \<Rightarrow> (Pending, [])
      | Fulfilled _ \<Rightarrow>
          (case tx b of
             TxThrows e \<Rightarrow> (Rejected e, [])
           | TxCompletes \<Rightarrow> (Fulfilled (), [LocalPut key])
           | TxErrors e \<Rightarrow> (Rejected e, [])
           | TxSilent \<Rightarrow> (Pending, [])))"

definition getItem :: "idb_call \<Rightarrow> 'v option \<Rightarrow> 'v option promise" where
  \<comment> \<open>\<open>stored\<close> is \<^verbatim>\<open>request.result\<close>: what the store holds under the key, \<open>None\<close> when
      nothing; the \<^verbatim>\<open>null\<close> of the \<^verbatim>\<open>catch\<close> is \<open>None\<close> as well.\<close>
  "getItem b stored =
     (case db_open b of
        Rejected e \<Rightarrow> Fulfilled None
      | Pending \<Rightarrow> Pending
      | Fulfilled _ \<Rightarrow>
          (case tx b of
             TxThrows e \<Rightarrow> Rejected e
           | TxCompletes \<Rightarrow> Fulfilled stored
           | TxErrors e \<Rightarrow> Rejected e
           | TxSilent \<Rightarrow> Pending))"

definition clear :: "idb_call \<Rightarrow> unit promise" where
  \<comment> \<open>No \<^verbatim>\<open>try\<close> here: \<^verbatim>\<open>const db = await getDB(); const transaction = db.transaction(...);
      transaction.objectStore(STORE_NAME).clear();\<close> The outcome of the transaction is
      not waited for.\<close>
  "clear b =
     (case db_open b of
        Rejected e \<Rightarrow> Rejected e
      | Pending \<Rightarrow> Pending
      | Fulfilled _ \<Rightarrow> (case tx b of TxThrows e \<Rightarrow> Rejected e | _ \<Rightarrow> Fulfilled ()))"

subsection \<open>The merge engine (\<^verbatim>\<open>handleMassImport\<close>) and the views of the shell\<close>

record AppState =
  users :: "User list"
  allFiles :: "PropertyFile list"

definition syncToCloud :: "bool \<Rightarrow> string \<Rightarrow> event list" where
  \<comment> \<open>\<open>cloud\<close> is \<^verbatim>\<open>isCloudEnabled && supabase\<close>. The upsert is attempted inside a
      \<^verbatim>\<open>try\<close>; the caller does not wait for it. The \<^verbatim>\<open>setIsSyncing(false)\<close> that a timer
      runs half a second later is not part of the trace.\<close>
  "syncToCloud cloud table =
     (if \<not> cloud then []
      else [SetIsSyncing True,
            RemoteUpsert (if table = ''users'' then ''profiles''
                          else if table = ''files'' then ''property_files'' else table)])"

definition mergeByKey :: "('e \<Rightarrow> string) \<Rightarrow> 'e list \<Rightarrow> 'e list \<Rightarrow> 'e list" where
  \<comment> \<open>\<^verbatim>\<open>const m = new Map(existing.map(e => [key(e), e]));
      fresh.forEach(e => m.set(key(e), e)); Array.from(m.values())\<close>, the pattern that
      \<^verbatim>\<open>handleMassImport\<close> writes once for owners and once for files.\<close>
  "mergeByKey key existing fresh =
     map_values (foldl (\<lambda>m e. map_set m (key e) e) (new_Map (map (\<lambda>e. (key e, e)) existing)) fresh)"

definition handleMassImport ::
  "bool \<Rightarrow> (string \<Rightarrow> idb_call) \<Rightarrow> ImportData \<Rightarrow> bool option \<Rightarrow> AppState
     \<Rightarrow> AppState \<times> event list \<times> unit promise" where
  \<comment> \<open>\<open>isDestructive\<close> is the optional flag (\<open>None\<close>: not passed); \<open>idb k\<close> is what
      IndexedDB does during \<^verbatim>\<open>setItem(k, ...)\<close>. The result is the state after
      \<^verbatim>\<open>setUsers\<close> and \<^verbatim>\<open>setAllFiles\<close>, the effects in the order in which the function
      performs them, and how its promise settles. \<open>PutAwaited k\<close> marks the return of
      \<^verbatim>\<open>await AsyncStorage.setItem(k, ...)\<close>.\<close>
  "handleMassImport cloud idb data isDestructive st =
     (let destructive = (isDestructive = Some True);
          nextUsers = (if destructive then data_users data
                       else mergeByKey (\<lambda>u. normalizeCNIC (cnic u)) (users st) (data_users data));
          nextFiles = (if destructive then data_files data
                       else mergeByKey fileNo (allFiles st) (data_files data));
          st' = st \<lparr> users := nextUsers, allFiles := nextFiles \<rparr>;
          ev0 = [SetIsSyncing True, SetUsers nextUsers, SetAllFiles nextFiles];
          put1 = setItem (idb ''users'') ''users''
      in case fst put1 of
           Rejected e \<Rightarrow> (st', ev0 @ snd put1, Rejected e)
         | Pending \<Rightarrow> (st', ev0 @ snd put1, Pending)
         | Fulfilled _ \<Rightarrow>
             (let ev1 = ev0 @ snd put1 @ [PutAwaited ''users''];
                  put2 = setItem (idb ''files'') ''files''
              in case fst put2 of
                   Rejected e \<Rightarrow> (st', ev1 @ snd put2, Rejected e)
                 | Pending \<Rightarrow> (st', ev1 @ snd put2, Pending)
                 | Fulfilled _ \<Rightarrow>
                     (st',
                      ev1 @ snd put2 @ [PutAwaited ''files'']
                        @ syncToCloud cloud ''users'' @ syncToCloud cloud ''files''
                        @ [SetIsSyncing False],
                      Fulfilled ())))"

definition userCnicNormalized :: "User option \<Rightarrow> string" where
  \<comment> \<open>\<^verbatim>\<open>user?.cnic.replace(/[^0-9X]/g, '') || ''\<close>\<close>
  "userCnicNormalized user = (case user of None \<Rightarrow> [] | Some u \<Rightarrow> normalizeCNIC (cnic u))"

definition userFiles :: "User option \<Rightarrow> PropertyFile list \<Rightarrow> PropertyFile list" where
  "userFiles user fs =
     filter (\<lambda>f. normalizeCNIC (ownerCNIC f) = userCnicNormalized user) fs"

subsection \<open>The entry point of the admin portal\<close>

datatype alert = MasterSyncComplete | FormatError

definition alertText :: "alert \<Rightarrow> string" where
  "alertText a =
     (case a of
        MasterSyncComplete \<Rightarrow> ''Master Sync Complete: All records locked to local registry.''
      | FormatError \<Rightarrow> ''Format Error: Verify CSV columns.'')"

definition handleMasterSync ::
  "(nat \<Rightarrow> int) \<Rightarrow> (ImportData \<Rightarrow> bool option \<Rightarrow> 's \<Rightarrow> 's \<times> 'r) option \<Rightarrow> string \<Rightarrow> 's
     \<Rightarrow> 's \<times> 'r option \<times> alert" where
  \<comment> \<open>The \<^verbatim>\<open>onload\<close> handler on the text of the file. \<open>onImportFullDatabase\<close> is the
      optional property of the component, a function on the state \<open>'s\<close> of its owner;
      the result is that state, what the call of the property returned (\<open>None\<close>: no
      call), and the alert shown.\<close>
  "handleMasterSync now onImportFullDatabase text s =
     (case ingest now text of
        None \<Rightarrow> (s, None, FormatError)
      | Some maps \<Rightarrow>
          (case onImportFullDatabase of
             None \<Rightarrow> (s, None, MasterSyncComplete)
           | Some f \<Rightarrow>
               (let r = f \<lparr> data_users = map_values (fst maps),
                            data_files = map_values (snd maps) \<rparr> (Some True) s
                in (fst r, Some (snd r), MasterSyncComplete))))"

definition masterSync ::
  "(nat \<Rightarrow> int) \<Rightarrow> bool \<Rightarrow> (string \<Rightarrow> idb_call) \<Rightarrow> string \<Rightarrow> AppState
     \<Rightarrow> AppState \<times> (event list \<times> unit promise) option \<times> alert" where
  \<comment> \<open>The portal as the shell renders it: \<^verbatim>\<open>onImportFullDatabase={handleMassImport}\<close>.\<close>
  "masterSync now cloud idb text st =
     handleMasterSync now (Some (handleMassImport cloud idb)) text st"

subsection \<open>Notions used to state the properties\<close>

definition js_sum :: "number list \<Rightarrow> number" where
  \<comment> \<open>The sum as the source accumulates it: from 0, left to right.\<close>
  "js_sum xs = foldl js_add (Val 0) xs"

definition keptRows :: "string list \<Rightarrow> nat \<Rightarrow> string list \<Rightarrow> (nat \<times> string) list" where
  \<comment> \<open>The data rows that are not skipped, each with its index.\<close>
  "keptRows normH idx rows =
     filter (\<lambda>(i, line). \<not> skipped normH line) (zip [idx ..< idx + length rows] rows)"

definition rowsOfFile :: "string list \<Rightarrow> string \<Rightarrow> string list \<Rightarrow> (nat \<times> string) list" where
  \<comment> \<open>The kept rows that bear a file code, in row order.\<close>
  "rowsOfFile normH c rows =
     filter (\<lambda>(i, line). itemCode_of normH line = c) (keptRows normH 0 rows)"

definition addRows ::
  "(nat \<Rightarrow> int) \<Rightarrow> string list \<Rightarrow> (nat \<times> string) list \<Rightarrow> PropertyFile \<Rightarrow> PropertyFile" where
  \<comment> \<open>A file after the rows of a list, each with its index, have been added to it.\<close>
  "addRows now normH rs f = foldl (\<lambda>p (i, l). addRow now normH i l p) f rs"

definition lastWithKey :: "('e \<Rightarrow> string) \<Rightarrow> 'e list \<Rightarrow> string \<Rightarrow> 'e option" where
  \<comment> \<open>The entity of a collection under a natural key: the last one, should several
      bear the key.\<close>
  "lastWithKey key xs k = map_of (rev (map (\<lambda>e. (key e, e)) xs)) k"

definition keyedUnion :: "('e \<Rightarrow> string) \<Rightarrow> 'e list \<Rightarrow> 'e list \<Rightarrow> 'e list \<Rightarrow> bool" where
  \<comment> \<open>\<open>R\<close> is the union of \<open>A\<close> and \<open>B\<close> keyed by \<open>key\<close>, with \<open>B\<close> winning: one
      entity per key of the union, and under each key the entity of \<open>B\<close> when \<open>B\<close>
      has the key, the entity of \<open>A\<close> otherwise.\<close>
  "keyedUnion key A B R \<longleftrightarrow>
     distinct (map key R)
     \<and> set (map key R) = key ` set A \<union> key ` set B
     \<and> length R = card (key ` set A \<union> key ` set B)
     \<and> (\<forall>k. lastWithKey key R k =
              (case lastWithKey key B k of Some b \<Rightarrow> Some b | None \<Rightarrow> lastWithKey key A k))"

definition buildMap :: "('e \<Rightarrow> string) \<Rightarrow> 'e jsmap \<Rightarrow> 'e list \<Rightarrow> 'e jsmap" where
  \<comment> \<open>Entities set one after the other under their keys.\<close>
  "buildMap key m xs = foldl (\<lambda>m e. map_set m (key e) e) m xs"

definition stripSeparators :: "string \<Rightarrow> string" where
  \<comment> \<open>The text without its commas and parentheses.\<close>
  "stripSeparators s = filter (\<lambda>c. c \<noteq> CHR '','' \<and> c \<noteq> CHR ''('' \<and> c \<noteq> CHR '')'') s"

definition healthyIDB :: "string \<Rightarrow> idb_call" where
  \<comment> \<open>An IndexedDB that opens and completes every transaction.\<close>
  "healthyIDB key = \<lparr> db_open = Fulfilled (), tx = TxCompletes \<rparr>"

definition sampleUser :: "string \<Rightarrow> string \<Rightarrow> User" where
  "sampleUser c n =
     \<lparr> user_id = ''user-'' @ normalizeCNIC c, cnic = c, name = n,
       email = normalizeCNIC c @ ''@dinproperties.com.pk'', phone = ''-'',
       role = ''CLIENT'', status = ''Active'', password = ''password123'' \<rparr>"

definition normalizeCNIC_spec :: "string \<Rightarrow> string" where
  \<comment> \<open>The normalization in the words of the specification: upper-case, then strip
      every character that is not a digit or the check letter.\<close>
  "normalizeCNIC_spec s = filter (\<lambda>c. isDigit c \<or> c = CHR ''X'') (toUpperCase s)"

definition fixedClock :: "int \<Rightarrow> nat \<Rightarrow> int" where
  \<comment> \<open>A clock that stands still during the ingestion.\<close>
  "fixedClock t idx = t"

definition scenarioHeader :: string where
  "scenarioHeader = ''cnic,itemcode,paid,balance''"

definition scenarioRow1 :: string where
  \<comment> \<open>File F1, paid 500, outstanding "1,500.00" (quoted in the file).\<close>
  "scenarioRow1 = ''35202-1234567-1,F1,500,'' @ [CHR 0x22] @ ''1,500.00'' @ [CHR 0x22]"

definition scenarioRow2 :: string where
  \<comment> \<open>File F1, paid 300, outstanding (200).\<close>
  "scenarioRow2 = ''35202-1234567-1,F1,300,(200)''"

definition scenarioCSV :: string where
  "scenarioCSV =
     scenarioHeader @ [CHR 0x0D, CHR 0x0A] @ scenarioRow1 @ [CHR 0x0A] @ scenarioRow2 @ [CHR 0x0A]"

definition rowWithoutIdentity :: string where
  \<comment> \<open>A row of file F1 whose identity cell is empty.\<close>
  "rowWithoutIdentity = '',F1,300,(200)''"

definition skippedRowCSV :: string where
  "skippedRowCSV = scenarioHeader @ [CHR 0x0A] @ scenarioRow1 @ [CHR 0x0A] @ rowWithoutIdentity"

definition rowsBearing :: "string list \<Rightarrow> string \<Rightarrow> string list \<Rightarrow> string list" where
  \<comment> \<open>All data rows that bear a file code, skipped or not.\<close>
  "rowsBearing normH c rows = filter (\<lambda>l. itemCode_of normH l = c) rows"

definition headerOnlyCSV :: string where
  \<comment> \<open>A header line followed by a blank line.\<close>
  "headerOnlyCSV = ''cnic,itemcode'' @ [CHR 0x0A] @ ''   '' @ [CHR 0x0D, CHR 0x0A]"

definition sampleState :: AppState where
  "sampleState = \<lparr> users = [sampleUser ''9'' ''Old''], allFiles = [] \<rparr>"

section \<open>Properties\<close>

subsection \<open>Numeric field parsing\<close>

lemma isDigit_not_special:
  assumes "isDigit c"
  shows "\<not> isWhiteSpace c" "c \<noteq> CHR ''-''" "c \<noteq> CHR ''+''" "c \<noteq> CHR ''I''"
    "c \<noteq> CHR '',''" "c \<noteq> CHR ''(''" "c \<noteq> CHR '')''" "c \<noteq> CHR ''.''"
  using assms by (auto simp: isDigit_def isWhiteSpace_def)

lemma takeWhile_digits: "list_all isDigit ds \<Longrightarrow> takeWhile isDigit ds = ds"
  by (simp add: list_all_iff)

lemma dropWhile_digits: "list_all isDigit ds \<Longrightarrow> dropWhile isDigit ds = []"
  by (simp add: list_all_iff)

lemma parseFloat_digits:
  assumes "ds \<noteq> []" and "list_all isDigit ds" and "digitsValue ds \<le> 9007199254740992"
  shows "parseFloat ds = Val (of_nat (digitsValue ds))"
proof -
  from assms(1) obtain c r where ds: "ds = c # r" by (cases ds) auto
  with assms(2) have c: "isDigit c" by simp
  have t: "trimStart ds = ds"
    using isDigit_not_special(1)[OF c] by (simp add: trimStart_def ds)
  have lit: "strUnsignedDecimalLiteral ds = Some (Val (of_nat (digitsValue ds)))"
    using assms(1,2) isDigit_not_special(4)[OF c]
    by (simp add: strUnsignedDecimalLiteral_def takeWhile_digits dropWhile_digits
        decimalValue_def pow10_def ds)
  show ?thesis
    using t lit isDigit_not_special(2,3)[OF c]
    by (simp add: parseFloat_def ds)
qed

lemma parseVal_parenthesised_digits:
  assumes "ds \<noteq> []" and "list_all isDigit ds" and "digitsValue ds \<le> 9007199254740992"
  shows "parseVal (Some (''('' @ ds @ '')'')) = Val (of_nat (digitsValue ds))"
proof -
  have f: "stripSeparators (''('' @ ds @ '')'') = ds"
    using assms(2)
    by (auto simp: stripSeparators_def list_all_iff filter_id_conv dest: isDigit_not_special)
  have u: "toUpperCase (''('' @ ds @ '')'') \<noteq> ''NULL''"
    by (simp add: toUpperCase_def upperChar_def)
  show ?thesis
    using u f parseFloat_digits[OF assms]
    by (simp add: parseVal_def stripSeparators_def truthy_def)
qed

lemma parseVal_general:
  "parseVal (Some s) =
     (if s = [] \<or> toUpperCase s = ''NULL'' \<or> s = ''-'' then Val 0
      else if parseFloat (stripSeparators s) = NaN then Val 0
      else parseFloat (stripSeparators s))"
  by (simp add: parseVal_def stripSeparators_def truthy_def Let_def)

lemma parseVal_not_NaN: "parseVal v \<noteq> NaN"
  by (cases v) (simp_all add: parseVal_def truthy_def Let_def)

lemma upperChar_null_letters:
  "upperChar CHR ''n'' = ''N''" "upperChar CHR ''N'' = ''N''"
  "upperChar CHR ''u'' = ''U''" "upperChar CHR ''U'' = ''U''"
  "upperChar CHR ''l'' = ''L''" "upperChar CHR ''L'' = ''L''"
  by code_simp+

lemma parseVal_null_variants:
  assumes "a = CHR ''n'' \<or> a = CHR ''N''" "b = CHR ''u'' \<or> b = CHR ''U''"
    "c = CHR ''l'' \<or> c = CHR ''L''" "d = CHR ''l'' \<or> d = CHR ''L''"
  shows "parseVal (Some [a, b, c, d]) = Val 0"
proof -
  have "toUpperCase [a, b, c, d] = ''NULL''"
    using assms by (auto simp: toUpperCase_def upperChar_null_letters)
  then show ?thesis by (simp add: parseVal_def)
qed

lemma digits_200: "list_all isDigit ''200'' \<and> digitsValue ''200'' = 200"
  by (simp add: isDigit_def digitsValue_def digitVal_def)

lemma parseVal_200_parens: "parseVal (Some ''(200)'') = Val 200"
  using parseVal_parenthesised_digits[of "''200''"] digits_200 by simp

lemma parseVal_plain_digits:
  assumes "ds \<noteq> []" and "list_all isDigit ds" and "toUpperCase ds \<noteq> ''NULL''"
    and "digitsValue ds \<le> 9007199254740992"
  shows "parseVal (Some ds) = Val (of_nat (digitsValue ds))"
proof -
  have f: "stripSeparators ds = ds"
    using assms(2)
    by (auto simp: stripSeparators_def list_all_iff filter_id_conv dest: isDigit_not_special)
  have "ds \<noteq> ''-''"
    using assms(2) by (auto dest: isDigit_not_special)
  then show ?thesis
    using assms(1,3) f parseFloat_digits[OF assms(1,2,4)]
    by (simp add: parseVal_general)
qed

lemma parseVal_1000: "parseVal (Some ''1000'') = Val 1000"
proof -
  have "parseVal (Some ''1000'') = Val (of_nat (digitsValue ''1000''))"
  proof (rule parseVal_plain_digits)
    show "''1000'' \<noteq> []" by simp
    show "list_all isDigit ''1000''" by (simp add: isDigit_def)
    show "toUpperCase ''1000'' \<noteq> ''NULL''" by (simp add: toUpperCase_def upperChar_def)
    show "digitsValue ''1000'' \<le> 9007199254740992" by (simp add: digitsValue_def digitVal_def)
  qed
  moreover have "digitsValue ''1000'' = 1000" by (simp add: digitsValue_def digitVal_def)
  ultimately show ?thesis by (simp only: of_nat_numeral)
qed

lemma parseFloat_1000_00: "parseFloat ''1000.00'' = Val 1000"
  by (simp add: parseFloat_def trimStart_def isWhiteSpace_def strUnsignedDecimalLiteral_def
      isDigit_def exponentPart_def decimalValue_def pow10_def digitsValue_def digitVal_def)

lemma parseVal_1000_grouped: "parseVal (Some ''1,000.00'') = Val 1000"
proof -
  have "toUpperCase ''1,000.00'' \<noteq> ''NULL''" by (simp add: toUpperCase_def upperChar_def)
  then show ?thesis using parseFloat_1000_00 by (simp add: parseVal_def truthy_def)
qed

lemma char_of_n: "char_of (110::nat) = CHR ''n''"
  by code_simp

lemma upperChar_nonempty: "upperChar c \<noteq> []"
  by (simp add: upperChar_def Let_def)

lemma hd_upperChar_N:
  assumes "hd (upperChar c) = CHR ''N''"
  shows "c = CHR ''n'' \<or> c = CHR ''N''"
proof -
  let ?n = "of_char c :: nat"
  show ?thesis
  proof (cases "(97 \<le> ?n \<and> ?n \<le> 122) \<or> (224 \<le> ?n \<and> ?n \<le> 254 \<and> ?n \<noteq> 247)")
    case True
    then have "upperChar c = [char_of (?n - 32)]" by (simp add: upperChar_def Let_def)
    with assms have "char_of (?n - 32) = CHR ''N''" by simp
    then have "(of_char (char_of (?n - 32) :: char) :: nat) = of_char CHR ''N''" by simp
    moreover have "?n - 32 < 256" using True by auto
    ultimately have "?n - 32 = 78" by simp
    with True have "?n = 110" by auto
    then have "char_of ?n = (char_of (110::nat) :: char)" by simp
    then have "c = CHR ''n''" by (simp add: char_of_n)
    then show ?thesis ..
  next
    case nc: False
    have rest: "upperChar c = (if ?n = 223 then ''SS'' else [c])"
      unfolding upperChar_def Let_def by (rule if_not_P[OF nc])
    show ?thesis
    proof (cases "?n = 223")
      case True
      with rest assms show ?thesis by simp
    next
      case False
      with rest assms show ?thesis by simp
    qed
  qed
qed

lemma strUnsignedDecimalLiteral_letter_n:
  assumes "c = CHR ''n'' \<or> c = CHR ''N''"
  shows "strUnsignedDecimalLiteral (c # r) = None"
proof -
  have nd: "\<not> isDigit c" using assms by (auto simp: isDigit_def)
  have ni: "take 8 (c # r) \<noteq> ''Infinity''" using assms by auto
  have np: "c \<noteq> CHR ''.''" using assms by auto
  show ?thesis
    unfolding strUnsignedDecimalLiteral_def using nd ni np by simp
qed

lemma parseFloat_letter_n:
  assumes "c = CHR ''n'' \<or> c = CHR ''N''"
  shows "parseFloat (c # r) = NaN"
proof -
  have nw: "\<not> isWhiteSpace c" using assms by (auto simp: isWhiteSpace_def)
  have ns: "c \<noteq> CHR ''-''" "c \<noteq> CHR ''+''" using assms by auto
  show ?thesis
    unfolding parseFloat_def trimStart_def
    using nw ns strUnsignedDecimalLiteral_letter_n[OF assms, of r] by simp
qed

lemma parseFloat_of_NULL:
  assumes "toUpperCase s = ''NULL''"
  shows "parseFloat (stripSeparators s) = NaN"
proof -
  from assms obtain c r where s: "s = c # r" by (cases s) (auto simp: toUpperCase_def)
  from assms have "upperChar c @ toUpperCase r = ''NULL''" by (simp add: s toUpperCase_def)
  then have "hd (upperChar c @ toUpperCase r) = CHR ''N''" by simp
  then have "hd (upperChar c) = CHR ''N''" using upperChar_nonempty[of c] by simp
  then have c: "c = CHR ''n'' \<or> c = CHR ''N''" by (rule hd_upperChar_N)
  then have "stripSeparators s = c # stripSeparators r"
    by (auto simp: stripSeparators_def s)
  then show ?thesis using parseFloat_letter_n[OF c] by simp
qed

lemma parseFloat_no_literal: "parseFloat [] = NaN" "parseFloat ''-'' = NaN"
  by (simp_all add: parseFloat_def trimStart_def isWhiteSpace_def strUnsignedDecimalLiteral_def)

lemma parseVal_parentheses_removed:
  "parseVal (Some (''('' @ s @ '')'')) = parseVal (Some s)"
proof -
  have f: "stripSeparators (''('' @ s @ '')'') = stripSeparators s"
    by (simp add: stripSeparators_def)
  have u: "toUpperCase (''('' @ s @ '')'') \<noteq> ''NULL''"
    by (simp add: toUpperCase_def upperChar_def)
  have d: "''('' @ s @ '')'' \<noteq> ''-''" by simp
  have l: "parseVal (Some (''('' @ s @ '')'')) =
             (if parseFloat (stripSeparators s) = NaN then Val 0
              else parseFloat (stripSeparators s))"
    unfolding parseVal_general f using u d by simp
  show ?thesis
  proof (cases "s = [] \<or> toUpperCase s = ''NULL'' \<or> s = ''-''")
    case True
    then have "parseFloat (stripSeparators s) = NaN"
      using parseFloat_of_NULL[of s] parseFloat_no_literal
      by (auto simp: stripSeparators_def)
    with True show ?thesis unfolding l by (simp add: parseVal_general)
  next
    case False
    then show ?thesis unfolding l by (simp add: parseVal_general)
  qed
qed

lemma digits_200_bounded: "digitsValue ''200'' \<le> 9007199254740992"
  using digits_200 by simp

text \<open>
  Claim C3. The numeric field parser returns 0 for an absent value, for the empty
  string, for the null marker in any mix of upper and lower case, and for a lone dash.
  For every other string it removes the commas and the parentheses and hands the rest
  to the decimal parser, with 0 in place of an unparseable rest (NaN). Parentheses do
  not negate: any text in parentheses parses to what the text parses to without them,
  and a run of digits in parentheses whose value is at most \<open>2^53\<close> (where every
  integer is a double) has the value of the digits, so \<open>(200)\<close> is 200. \<open>1000\<close> and
  \<open>1,000.00\<close> have the same value.
\<close>

theorem parseVal_numeric_field:
  "parseVal None = Val 0
   \<and> parseVal (Some []) = Val 0
   \<and> parseVal (Some ''-'') = Val 0
   \<and> parseVal (Some ''NULL'') = Val 0
   \<and> parseVal (Some ''null'') = Val 0
   \<and> (\<forall>a b c d. (a = CHR ''n'' \<or> a = CHR ''N'') \<and> (b = CHR ''u'' \<or> b = CHR ''U'')
          \<and> (c = CHR ''l'' \<or> c = CHR ''L'') \<and> (d = CHR ''l'' \<or> d = CHR ''L'')
          \<longrightarrow> parseVal (Some [a, b, c, d]) = Val 0)
   \<and> (\<forall>s. parseVal (Some s) =
          (if s = [] \<or> toUpperCase s = ''NULL'' \<or> s = ''-'' then Val 0
           else if parseFloat (stripSeparators s) = NaN then Val 0
           else parseFloat (stripSeparators s)))
   \<and> (\<forall>s. parseVal (Some (''('' @ s @ '')'')) = parseVal (Some s))
   \<and> (\<forall>ds. ds \<noteq> [] \<and> list_all isDigit ds \<and> digitsValue ds \<le> 9007199254740992
          \<longrightarrow> parseVal (Some (''('' @ ds @ '')'')) = Val (of_nat (digitsValue ds)))
   \<and> parseVal (Some ''(200)'') = Val 200
   \<and> parseVal (Some ''1000'') = parseVal (Some ''1,000.00'')"
proof (intro conjI allI impI)
  show "parseVal None = Val 0" "parseVal (Some []) = Val 0" "parseVal (Some ''-'') = Val 0"
    by (simp_all add: parseVal_def)
  show "parseVal (Some ''NULL'') = Val 0"
    by (rule parseVal_null_variants) simp_all
  show "parseVal (Some ''null'') = Val 0"
    by (rule parseVal_null_variants) simp_all
  show "parseVal (Some [a, b, c, d]) = Val 0"
    if "(a = CHR ''n'' \<or> a = CHR ''N'') \<and> (b = CHR ''u'' \<or> b = CHR ''U'')
          \<and> (c = CHR ''l'' \<or> c = CHR ''L'') \<and> (d = CHR ''l'' \<or> d = CHR ''L'')" for a b c d
    using that by (intro parseVal_null_variants) (elim conjE, assumption)+
  show "parseVal (Some s) =
          (if s = [] \<or> toUpperCase s = ''NULL'' \<or> s = ''-'' then Val 0
           else if parseFloat (stripSeparators s) = NaN then Val 0
           else parseFloat (stripSeparators s))" for s
    by (rule parseVal_general)
  show "parseVal (Some (''('' @ s @ '')'')) = parseVal (Some s)" for s
    by (rule parseVal_parentheses_removed)
  show "parseVal (Some (''('' @ ds @ '')'')) = Val (of_nat (digitsValue ds))"
    if "ds \<noteq> [] \<and> list_all isDigit ds \<and> digitsValue ds \<le> 9007199254740992" for ds
    using that by (intro parseVal_parenthesised_digits) (elim conjE, assumption)+
  show "parseVal (Some ''(200)'') = Val 200"
    by (rule parseVal_200_parens)
  show "parseVal (Some ''1000'') = parseVal (Some ''1,000.00'')"
    by (simp only: parseVal_1000 parseVal_1000_grouped)
qed

theorem parseVal_numeric_field_witness:
  "''200'' \<noteq> [] \<and> list_all isDigit ''200'' \<and> digitsValue ''200'' \<le> 9007199254740992
   \<and> parseVal (Some (''('' @ ''200'' @ '')'')) = Val (of_nat (digitsValue ''200''))
   \<and> of_nat (digitsValue ''200'') = (200 :: rat)
   \<and> parseVal (Some [CHR ''n'', CHR ''U'', CHR ''l'', CHR ''L'']) = Val 0"
proof -
  have d: "''200'' \<noteq> [] \<and> list_all isDigit ''200'' \<and> digitsValue ''200'' \<le> 9007199254740992"
    using digits_200 digits_200_bounded by simp
  have n: "(CHR ''n'' = CHR ''n'' \<or> CHR ''n'' = CHR ''N'') \<and> (CHR ''U'' = CHR ''u'' \<or> CHR ''U'' = CHR ''U'')
        \<and> (CHR ''l'' = CHR ''l'' \<or> CHR ''l'' = CHR ''L'') \<and> (CHR ''L'' = CHR ''l'' \<or> CHR ''L'' = CHR ''L'')"
    by simp
  note t = parseVal_numeric_field
  from t have p: "\<forall>ds. ds \<noteq> [] \<and> list_all isDigit ds \<and> digitsValue ds \<le> 9007199254740992
          \<longrightarrow> parseVal (Some (''('' @ ds @ '')'')) = Val (of_nat (digitsValue ds))"
    by (elim conjE)
  from t have q: "\<forall>a b c d. (a = CHR ''n'' \<or> a = CHR ''N'') \<and> (b = CHR ''u'' \<or> b = CHR ''U'')
          \<and> (c = CHR ''l'' \<or> c = CHR ''L'') \<and> (d = CHR ''l'' \<or> d = CHR ''L'')
          \<longrightarrow> parseVal (Some [a, b, c, d]) = Val 0"
    by (elim conjE)
  have 1: "parseVal (Some (''('' @ ''200'' @ '')'')) = Val (of_nat (digitsValue ''200''))"
    using p[rule_format, OF d] .
  have 2: "parseVal (Some [CHR ''n'', CHR ''U'', CHR ''l'', CHR ''L'']) = Val 0"
    using q[rule_format, OF n] .
  have 3: "of_nat (digitsValue ''200'') = (200 :: rat)"
    using digits_200 by (simp only: of_nat_numeral)
  from d 1 2 3 show ?thesis by (intro conjI) (elim conjE, assumption)+
qed

subsection \<open>The insertion-ordered map\<close>

lemma map_has_iff: "map_has m k \<longleftrightarrow> k \<in> set (map fst m)"
  by (simp add: map_has_def map_of_eq_None_iff)

lemma map_of_replace:
  "map_of (map (\<lambda>(k', v'). if k' = k then (k', v) else (k', v')) m) k' =
     (if k' = k then map_option (\<lambda>_. v) (map_of m k) else map_of m k')"
  by (induction m) auto

lemma map_of_map_set: "map_of (map_set m k v) k' = (if k' = k then Some v else map_of m k')"
  by (auto simp: map_set_def map_has_def map_of_replace map_add_def split: option.splits)

lemma keys_replace:
  "map fst (map (\<lambda>(k', v'). if k' = k then (k', f v') else (k', v')) m) = map fst m"
  by (induction m) (auto split: prod.splits)

lemma keys_map_set:
  "map fst (map_set m k v) = (if k \<in> set (map fst m) then map fst m else map fst m @ [k])"
  using keys_replace[of k "\<lambda>_. v" m] by (simp add: map_set_def map_has_iff)

lemma keys_map_modify: "map fst (map_modify m k f) = map fst m"
  unfolding map_modify_def by (rule keys_replace)

lemma map_of_map_modify:
  "map_of (map_modify m k f) k' = (if k' = k then map_option f (map_of m k) else map_of m k')"
  unfolding map_modify_def by (induction m) auto

lemma set_map_set_keyed:
  assumes "\<forall>(k', e) \<in> set m. key e = k'"
  shows "\<forall>(k', e) \<in> set (map_set m (key x) x). key e = k'"
  using assms by (auto simp: map_set_def split: if_splits)

lemma new_Map_buildMap: "new_Map (map (\<lambda>e. (key e, e)) xs) = buildMap key [] xs"
  by (simp add: new_Map_def buildMap_def foldl_map)

lemma mergeByKey_buildMap: "mergeByKey key A B = map_values (buildMap key [] (A @ B))"
  by (simp add: mergeByKey_def new_Map_buildMap buildMap_def)

lemma buildMap_snoc: "buildMap key m (xs @ [x]) = map_set (buildMap key m xs) (key x) x"
  by (simp add: buildMap_def)

lemma buildMap_keys:
  "set (map fst (buildMap key m xs)) = set (map fst m) \<union> key ` set xs"
  by (induction xs rule: rev_induct) (auto simp: buildMap_snoc keys_map_set buildMap_def)

lemma buildMap_distinct:
  "distinct (map fst m) \<Longrightarrow> distinct (map fst (buildMap key m xs))"
  by (induction xs rule: rev_induct) (auto simp: buildMap_snoc keys_map_set buildMap_def)

lemma buildMap_keyed:
  "\<forall>(k, e) \<in> set m. key e = k \<Longrightarrow> \<forall>(k, e) \<in> set (buildMap key m xs). key e = k"
proof (induction xs rule: rev_induct)
  case Nil then show ?case by (simp add: buildMap_def)
next
  case (snoc x xs)
  then show ?case using set_map_set_keyed[of "buildMap key m xs" key x]
    by (simp add: buildMap_snoc)
qed

lemma lastWithKey_snoc:
  "lastWithKey key (xs @ [x]) k = (if k = key x then Some x else lastWithKey key xs k)"
  by (simp add: lastWithKey_def)

lemma buildMap_lookup:
  "map_of (buildMap key m xs) k =
     (case lastWithKey key xs k of Some e \<Rightarrow> Some e | None \<Rightarrow> map_of m k)"
  by (induction xs rule: rev_induct)
     (simp_all add: buildMap_snoc map_of_map_set lastWithKey_snoc, simp add: buildMap_def lastWithKey_def)

lemma keyed_values:
  assumes "\<forall>(k, e) \<in> set m. key e = k"
  shows "map (\<lambda>e. (key e, e)) (map snd m) = m"
  using assms by (induction m) auto

lemma map_of_rev_distinct: "distinct (map fst m) \<Longrightarrow> map_of (rev m) = map_of m"
  by (metis distinct_rev map_of_inject_set rev_map set_rev)

lemma lastWithKey_values:
  assumes "\<forall>(k, e) \<in> set m. key e = k" and "distinct (map fst m)"
  shows "lastWithKey key (map_values m) k = map_of m k"
  using keyed_values[OF assms(1)] map_of_rev_distinct[OF assms(2)]
  by (simp add: lastWithKey_def map_values_def)

lemma mergeByKey_lookup:
  "lastWithKey key (mergeByKey key A B) k =
     (case lastWithKey key B k of Some b \<Rightarrow> Some b | None \<Rightarrow> lastWithKey key A k)"
proof -
  have 1: "\<forall>(k, e) \<in> set (buildMap key [] (A @ B)). key e = k"
    by (rule buildMap_keyed) simp
  have 2: "distinct (map fst (buildMap key [] (A @ B)))"
    by (rule buildMap_distinct) simp
  have "lastWithKey key (A @ B) k =
          (case lastWithKey key B k of Some b \<Rightarrow> Some b | None \<Rightarrow> lastWithKey key A k)"
    by (simp add: lastWithKey_def map_add_def split: option.splits)
  then show ?thesis
    using lastWithKey_values[OF 1 2, of k]
    by (simp add: mergeByKey_buildMap buildMap_lookup split: option.splits)
qed

lemma mergeByKey_keys:
  "map key (mergeByKey key A B) = map fst (buildMap key [] (A @ B))"
proof -
  have 1: "\<forall>(k, e) \<in> set (buildMap key [] (A @ B)). key e = k"
    by (rule buildMap_keyed) simp
  have "map fst (map (\<lambda>e. (key e, e)) (map snd (buildMap key [] (A @ B))))
          = map fst (buildMap key [] (A @ B))"
    using keyed_values[OF 1] by simp
  then show ?thesis by (simp add: mergeByKey_buildMap map_values_def comp_def)
qed

lemma mergeByKey_distinct: "distinct (map key (mergeByKey key A B))"
  by (simp add: mergeByKey_keys buildMap_distinct)

lemma mergeByKey_keyset: "set (map key (mergeByKey key A B)) = key ` set A \<union> key ` set B"
  using buildMap_keys[of key "[]" "A @ B"] by (simp add: mergeByKey_keys image_Un)

lemma mergeByKey_length: "length (mergeByKey key A B) = card (key ` set A \<union> key ` set B)"
proof -
  have "length (mergeByKey key A B) = length (map key (mergeByKey key A B))" by simp
  also have "\<dots> = card (set (map key (mergeByKey key A B)))"
    using mergeByKey_distinct[of key A B] by (simp only: distinct_card)
  finally show ?thesis by (simp only: mergeByKey_keyset)
qed

lemma mergeByKey_keyedUnion: "keyedUnion key A B (mergeByKey key A B)"
  unfolding keyedUnion_def
  using mergeByKey_distinct[of key A B] mergeByKey_keyset[of key A B]
    mergeByKey_length[of key A B] mergeByKey_lookup[of key A B]
  by blast

subsection \<open>The merge engine\<close>

lemma handleMassImport_state:
  "fst (handleMassImport cloud idb data isDestructive st) =
     st \<lparr> users := (if isDestructive = Some True then data_users data
                    else mergeByKey (\<lambda>u. normalizeCNIC (cnic u)) (users st) (data_users data)),
          allFiles := (if isDestructive = Some True then data_files data
                       else mergeByKey fileNo (allFiles st) (data_files data)) \<rparr>"
  by (simp add: handleMassImport_def Let_def split: promise.splits)

text \<open>
  Claim C2. The incremental mode of the mass import (the flag absent or false) leaves,
  for owners and for files alike, the union of the existing collection and the batch
  keyed by natural key (the normalized identity number, the file number): one entity
  per key of the union, so as many entities as the union has keys, and under each key
  the entity of the batch when the batch has the key, the existing entity otherwise.
\<close>

theorem incremental_merge_is_keyed_union:
  assumes "isDestructive \<noteq> Some True"
  shows "keyedUnion (\<lambda>u. normalizeCNIC (cnic u)) (users st) (data_users data)
           (users (fst (handleMassImport cloud idb data isDestructive st)))
         \<and> keyedUnion fileNo (allFiles st) (data_files data)
             (allFiles (fst (handleMassImport cloud idb data isDestructive st)))"
  using assms by (simp add: handleMassImport_state mergeByKey_keyedUnion)

lemma sample_keys:
  "normalizeCNIC ''1-1'' = ''11''" "normalizeCNIC ''2'' = ''2''"
  "normalizeCNIC ''11'' = ''11''" "normalizeCNIC ''3'' = ''3''"
  by (simp_all add: normalizeCNIC_def isDigit_def)

lemma sample_merge:
  "mergeByKey (\<lambda>u. normalizeCNIC (cnic u))
     [sampleUser ''1-1'' ''Old'', sampleUser ''2'' ''Two'']
     [sampleUser ''11'' ''New'', sampleUser ''3'' ''Three'']
   = [sampleUser ''11'' ''New'', sampleUser ''2'' ''Two'', sampleUser ''3'' ''Three'']"
  by (simp add: mergeByKey_def new_Map_def map_set_def map_has_def map_values_def
      sampleUser_def sample_keys)

theorem incremental_merge_is_keyed_union_witness:
  "(None :: bool option) \<noteq> Some True
   \<and> keyedUnion (\<lambda>u. normalizeCNIC (cnic u))
       [sampleUser ''1-1'' ''Old'', sampleUser ''2'' ''Two'']
       [sampleUser ''11'' ''New'', sampleUser ''3'' ''Three'']
       [sampleUser ''11'' ''New'', sampleUser ''2'' ''Two'', sampleUser ''3'' ''Three'']"
proof -
  have n: "(None :: bool option) \<noteq> Some True" by simp
  have "users (fst (handleMassImport False healthyIDB
           \<lparr> data_users = [sampleUser ''11'' ''New'', sampleUser ''3'' ''Three''], data_files = [] \<rparr>
           None
           \<lparr> users = [sampleUser ''1-1'' ''Old'', sampleUser ''2'' ''Two''], allFiles = [] \<rparr>))
        = [sampleUser ''11'' ''New'', sampleUser ''2'' ''Two'', sampleUser ''3'' ''Three'']"
    by (simp add: handleMassImport_state sample_merge)
  with incremental_merge_is_keyed_union[OF n, of
      "\<lparr> users = [sampleUser ''1-1'' ''Old'', sampleUser ''2'' ''Two''], allFiles = [] \<rparr>"
      "\<lparr> data_users = [sampleUser ''11'' ''New'', sampleUser ''3'' ''Three''], data_files = [] \<rparr>"
      False healthyIDB]
  show ?thesis by simp
qed


subsection \<open>The durable local store\<close>

text \<open>
  Claim C4 says that no error passes the boundary of \<open>setItem\<close>, \<open>getItem\<close> and \<open>clear\<close>.
  The source catches the failure of opening the database in \<open>setItem\<close> (logged) and in
  \<open>getItem\<close> (null returned). A transaction or request that fails after the database has
  opened, or that throws while it is set up, rejects the promise of \<open>setItem\<close> and of
  \<open>getItem\<close>; \<open>clear\<close> has no handler and rejects when the database does not open.
\<close>

theorem asyncStorage_failures_propagate:
  "fst (setItem \<lparr> db_open = Fulfilled (), tx = TxErrors e \<rparr> key) = Rejected e
   \<and> fst (setItem \<lparr> db_open = Fulfilled (), tx = TxThrows e \<rparr> key) = Rejected e
   \<and> getItem \<lparr> db_open = Fulfilled (), tx = TxErrors e \<rparr> stored = Rejected e
   \<and> clear \<lparr> db_open = Rejected e, tx = t \<rparr> = Rejected e
   \<and> setItem \<lparr> db_open = Rejected e, tx = t \<rparr> key
        = (Fulfilled (), [ConsoleError ''Persistence Failure:''])
   \<and> getItem \<lparr> db_open = Rejected e, tx = t \<rparr> stored = Fulfilled None"
  by (simp add: setItem_def getItem_def clear_def)

subsection \<open>Local persistence before remote mirroring\<close>

lemma setItem_no_upsert: "RemoteUpsert t \<notin> set (snd (setItem b k))"
  by (simp add: setItem_def split: promise.splits tx_behaviour.splits)

text \<open>
  Claim C8. Whenever a run of the mass import attempts a remote upsert, its trace has
  the return of the awaited \<open>setItem\<close> for the owners, later the return of the awaited
  \<open>setItem\<close> for the files, and no upsert before the second of them; both calls of
  \<open>setItem\<close> have settled as fulfilled.
\<close>

theorem local_persistence_precedes_remote_upsert:
  assumes run: "handleMassImport cloud idb data d st = (st', tr, p)"
    and up: "RemoteUpsert t \<in> set tr"
  shows "\<exists>pre mid post.
           tr = pre @ [PutAwaited ''users''] @ mid @ [PutAwaited ''files''] @ post
           \<and> (\<forall>t'. RemoteUpsert t' \<notin> set (pre @ mid))
           \<and> fst (setItem (idb ''users'') ''users'') = Fulfilled ()
           \<and> fst (setItem (idb ''files'') ''files'') = Fulfilled ()"
proof -
  let ?p1 = "setItem (idb ''users'') ''users''"
  let ?p2 = "setItem (idb ''files'') ''files''"
  let ?nu = "if d = Some True then data_users data
             else mergeByKey (\<lambda>u. normalizeCNIC (cnic u)) (users st) (data_users data)"
  let ?nf = "if d = Some True then data_files data
             else mergeByKey fileNo (allFiles st) (data_files data)"
  let ?ev0 = "[SetIsSyncing True, SetUsers ?nu, SetAllFiles ?nf]"
  have f1: "fst ?p1 = Fulfilled ()"
  proof (cases "fst ?p1")
    case (Fulfilled u) then show ?thesis by simp
  next
    case (Rejected e)
    with run have "tr = ?ev0 @ snd ?p1" by (simp add: handleMassImport_def Let_def)
    with up setItem_no_upsert show ?thesis by auto
  next
    case Pending
    with run have "tr = ?ev0 @ snd ?p1" by (simp add: handleMassImport_def Let_def)
    with up setItem_no_upsert show ?thesis by auto
  qed
  have f2: "fst ?p2 = Fulfilled ()"
  proof (cases "fst ?p2")
    case (Fulfilled u) then show ?thesis by simp
  next
    case (Rejected e)
    with run f1 have "tr = ?ev0 @ snd ?p1 @ [PutAwaited ''users''] @ snd ?p2"
      by (simp add: handleMassImport_def Let_def)
    with up setItem_no_upsert show ?thesis by auto
  next
    case Pending
    with run f1 have "tr = ?ev0 @ snd ?p1 @ [PutAwaited ''users''] @ snd ?p2"
      by (simp add: handleMassImport_def Let_def)
    with up setItem_no_upsert show ?thesis by auto
  qed
  from run f1 f2 have tr:
    "tr = (?ev0 @ snd ?p1) @ [PutAwaited ''users''] @ snd ?p2 @ [PutAwaited ''files'']
            @ (syncToCloud cloud ''users'' @ syncToCloud cloud ''files'' @ [SetIsSyncing False])"
    by (simp add: handleMassImport_def Let_def)
  have "\<forall>t'. RemoteUpsert t' \<notin> set ((?ev0 @ snd ?p1) @ snd ?p2)"
    using setItem_no_upsert by auto
  with tr f1 f2 show ?thesis by blast
qed

lemma healthy_trace:
  "handleMassImport True healthyIDB data (Some True) st =
     (st \<lparr> users := data_users data, allFiles := data_files data \<rparr>,
      [SetIsSyncing True, SetUsers (data_users data), SetAllFiles (data_files data),
       LocalPut ''users'', PutAwaited ''users'', LocalPut ''files'', PutAwaited ''files'',
       SetIsSyncing True, RemoteUpsert ''profiles'', SetIsSyncing True,
       RemoteUpsert ''property_files'', SetIsSyncing False],
      Fulfilled ())"
  by (simp add: handleMassImport_def healthyIDB_def setItem_def syncToCloud_def Let_def)

theorem local_persistence_precedes_remote_upsert_witness:
  "RemoteUpsert ''profiles''
     \<in> set (fst (snd (handleMassImport True healthyIDB
                         \<lparr> data_users = [], data_files = [] \<rparr> (Some True) sampleState)))
   \<and> (\<exists>pre mid post.
         fst (snd (handleMassImport True healthyIDB
                     \<lparr> data_users = [], data_files = [] \<rparr> (Some True) sampleState))
           = pre @ [PutAwaited ''users''] @ mid @ [PutAwaited ''files''] @ post
         \<and> (\<forall>t'. RemoteUpsert t' \<notin> set (pre @ mid)))"
proof -
  let ?r = "handleMassImport True healthyIDB \<lparr> data_users = [], data_files = [] \<rparr> (Some True)
              sampleState"
  have run: "?r = (fst ?r, fst (snd ?r), snd (snd ?r))" by simp
  have up: "RemoteUpsert ''profiles'' \<in> set (fst (snd ?r))"
    by (simp add: healthy_trace)
  from local_persistence_precedes_remote_upsert[OF run up] up show ?thesis by blast
qed

subsection \<open>The entry point: format errors and the destructive import\<close>

lemma ingest_None_iff: "ingest now text = None \<longleftrightarrow> length (nonEmptyLines text) < 2"
  by (simp add: ingest_def split: list.splits)

lemma scenario_lines:
  "nonEmptyLines scenarioCSV = [scenarioHeader, scenarioRow1, scenarioRow2]"
  by (simp add: scenarioCSV_def scenarioHeader_def scenarioRow1_def scenarioRow2_def
      nonEmptyLines_def splitLines_def trim_def isWhiteSpace_def)

lemma headerOnly_lines: "nonEmptyLines headerOnlyCSV = [''cnic,itemcode'']"
  by (simp add: headerOnlyCSV_def nonEmptyLines_def splitLines_def trim_def isWhiteSpace_def)

text \<open>
  Claim C6. A text with fewer than two non-empty lines (lines that are not blank after
  trimming) makes the ingestion fail: the handler shows the format-error alert, never
  calls the import property, and the owner and file collections of the application are
  what they were.
\<close>

theorem too_short_input_is_rejected:
  assumes "length (nonEmptyLines text) < 2"
  shows "handleMasterSync now onImportFullDatabase text s = (s, None, FormatError)
         \<and> masterSync now cloud idb text st = (st, None, FormatError)
         \<and> alertText FormatError = ''Format Error: Verify CSV columns.''"
  using assms ingest_None_iff[of now "text"]
  by (simp add: handleMasterSync_def masterSync_def alertText_def)

theorem too_short_input_is_rejected_witness:
  "length (nonEmptyLines headerOnlyCSV) < 2
   \<and> masterSync (fixedClock 0) True healthyIDB headerOnlyCSV sampleState
       = (sampleState, None, FormatError)"
proof -
  have h: "length (nonEmptyLines headerOnlyCSV) < 2"
    by (simp add: headerOnly_lines)
  from too_short_input_is_rejected[OF h, of "fixedClock 0" None sampleState True healthyIDB sampleState] h
  show ?thesis by blast
qed

text \<open>
  Claim C10. When the text parses (two or more non-empty lines), the handler calls the
  import property once, with the owners and files of the batch and the destructive flag
  set; with the merge engine as that property, the owner and file collections become
  exactly the batch, whatever they held before.
\<close>

theorem master_sync_is_destructive:
  assumes "ingest now text = Some (userMap, fileMap)"
  shows "handleMasterSync now (Some f) text s =
           (fst (f \<lparr> data_users = map_values userMap, data_files = map_values fileMap \<rparr>
                   (Some True) s),
            Some (snd (f \<lparr> data_users = map_values userMap, data_files = map_values fileMap \<rparr>
                         (Some True) s)),
            MasterSyncComplete)
         \<and> users (fst (masterSync now cloud idb text st)) = map_values userMap
         \<and> allFiles (fst (masterSync now cloud idb text st)) = map_values fileMap"
  using assms
  by (simp add: handleMasterSync_def masterSync_def handleMassImport_state Let_def)

theorem master_sync_is_destructive_witness:
  "ingest (fixedClock 0) scenarioCSV
     = Some (fst (the (ingest (fixedClock 0) scenarioCSV)),
             snd (the (ingest (fixedClock 0) scenarioCSV)))
   \<and> users (fst (masterSync (fixedClock 0) True healthyIDB scenarioCSV sampleState))
       = map_values (fst (the (ingest (fixedClock 0) scenarioCSV)))
   \<and> allFiles (fst (masterSync (fixedClock 0) True healthyIDB scenarioCSV sampleState))
       = map_values (snd (the (ingest (fixedClock 0) scenarioCSV)))"
proof -
  have "ingest (fixedClock 0) scenarioCSV \<noteq> None"
    by (simp add: ingest_None_iff scenario_lines)
  then have h: "ingest (fixedClock 0) scenarioCSV
     = Some (fst (the (ingest (fixedClock 0) scenarioCSV)),
             snd (the (ingest (fixedClock 0) scenarioCSV)))"
    by auto
  from master_sync_is_destructive[OF h, of "handleMassImport True healthyIDB" sampleState
      True healthyIDB sampleState] h
  show ?thesis by blast
qed

subsection \<open>Ingestion: the entities built from the rows\<close>

lemma newUser_fields:
  "cnic (newUser normH line) = rawCNIC_of normH line"
  "name (newUser normH line)
     = orElse (col normH (parseCSVLine line) [''oname'', ''ownername'', ''name'']) ''SAP Member''"
  "user_id (newUser normH line) = ''user-'' @ normalizeCNIC (rawCNIC_of normH line)"
  by (simp_all add: newUser_def Let_def)

lemma newFile_fields:
  "fileNo (newFile normH line um) = itemCode_of normH line"
  "paymentReceived (newFile normH line um) = Val 0"
  "balance (newFile normH line um) = Val 0"
  "transactions (newFile normH line um) = []"
  "ownerCNIC (newFile normH line um) = rawCNIC_of normH line"
  "ownerName (newFile normH line um)
     = name (the (map_get um (normalizeCNIC (rawCNIC_of normH line))))"
  by (simp_all add: newFile_def Let_def)

lemma addRow_fields:
  "fileNo (addRow now normH idx line p) = fileNo p"
  "plotValue (addRow now normH idx line p) = plotValue p"
  "ownerCNIC (addRow now normH idx line p) = ownerCNIC p"
  "ownerName (addRow now normH idx line p) = ownerName p"
  "paymentReceived (addRow now normH idx line p)
     = js_add (paymentReceived p) (paidVal_of normH line)"
  "balance (addRow now normH idx line p) = js_add (balance p) (osVal_of normH line)"
  "transactions (addRow now normH idx line p)
     = transactions p @ [newTransaction now normH idx line (plotValue p)]"
  by (simp_all add: addRow_def)

lemma newTransaction_fields:
  "seq (newTransaction now normH idx line pv) = idx"
  "transid (newTransaction now normH idx line pv) = now idx + int idx"
  "amount_paid (newTransaction now normH idx line pv) = paidVal_of normH line"
  "balduedeb (newTransaction now normH idx line pv) = osVal_of normH line"
  "itemcode (newTransaction now normH idx line pv) = itemCode_of normH line"
  "doctotal (newTransaction now normH idx line pv) = pv"
  by (simp_all add: newTransaction_def Let_def)

lemma addRows_Nil: "addRows now normH [] f = f"
  by (simp add: addRows_def)

lemma addRows_Cons:
  "addRows now normH ((i, l) # rs) f = addRows now normH rs (addRow now normH i l f)"
  by (simp add: addRows_def)

lemma addRows_kept_fields_conj:
  "fileNo (addRows now normH rs f) = fileNo f
   \<and> plotValue (addRows now normH rs f) = plotValue f
   \<and> ownerCNIC (addRows now normH rs f) = ownerCNIC f
   \<and> ownerName (addRows now normH rs f) = ownerName f"
  by (induction rs arbitrary: f) (auto simp: addRows_Nil addRows_Cons addRow_fields)

lemma addRows_kept_fields:
  "fileNo (addRows now normH rs f) = fileNo f"
  "plotValue (addRows now normH rs f) = plotValue f"
  "ownerCNIC (addRows now normH rs f) = ownerCNIC f"
  "ownerName (addRows now normH rs f) = ownerName f"
  using addRows_kept_fields_conj[of now normH rs f] by simp_all

lemma addRows_paymentReceived:
  "paymentReceived (addRows now normH rs f)
     = foldl js_add (paymentReceived f) (map (\<lambda>(i, l). paidVal_of normH l) rs)"
  by (induction rs arbitrary: f) (auto simp: addRows_Nil addRows_Cons addRow_fields)

lemma addRows_balance:
  "balance (addRows now normH rs f)
     = foldl js_add (balance f) (map (\<lambda>(i, l). osVal_of normH l) rs)"
  by (induction rs arbitrary: f) (auto simp: addRows_Nil addRows_Cons addRow_fields)

lemma addRows_transactions:
  "transactions (addRows now normH rs f)
     = transactions f @ map (\<lambda>(i, l). newTransaction now normH i l (plotValue f)) rs"
  by (induction rs arbitrary: f) (auto simp: addRows_Nil addRows_Cons addRow_fields)

subsection \<open>Ingestion: one row\<close>

lemma processRow_skipped:
  "skipped normH line \<Longrightarrow> processRow now normH idx line maps = maps"
  by (simp add: processRow_def)

lemma processRow_users:
  "fst (processRow now normH idx line (um, fm)) =
     (if skipped normH line \<or> normalizeCNIC (rawCNIC_of normH line) \<in> set (map fst um) then um
      else um @ [(normalizeCNIC (rawCNIC_of normH line), newUser normH line)])"
  by (simp add: processRow_def Let_def map_has_iff map_set_def)

lemma processRow_file_keys:
  "map fst (snd (processRow now normH idx line (um, fm))) =
     (if skipped normH line \<or> itemCode_of normH line \<in> set (map fst fm) then map fst fm
      else map fst fm @ [itemCode_of normH line])"
  by (simp add: processRow_def Let_def map_has_iff keys_map_modify keys_map_set)

lemma processRow_file_lookup:
  "map_of (snd (processRow now normH idx line (um, fm))) k =
     (if skipped normH line \<or> k \<noteq> itemCode_of normH line then map_of fm k
      else Some (addRow now normH idx line
                   (case map_of fm k of
                      Some f \<Rightarrow> f
                    | None \<Rightarrow> newFile normH line (fst (processRow now normH idx line (um, fm))))))"
  by (auto simp: processRow_def Let_def map_has_def map_of_map_modify map_of_map_set
      split: option.splits)

lemma keptRows_Nil: "keptRows normH idx [] = []"
  by (simp add: keptRows_def)

lemma upt_rows_Cons:
  "[idx ..< idx + length (line # rest)] = idx # [Suc idx ..< Suc idx + length rest]"
  by (subst upt_rec) simp

lemma keptRows_Cons:
  "keptRows normH idx (line # rest) =
     (if skipped normH line then [] else [(idx, line)]) @ keptRows normH (Suc idx) rest"
  unfolding keptRows_def upt_rows_Cons by simp

lemma keptRows_lines:
  "snd ` set (keptRows normH idx rows) = {l \<in> set rows. \<not> skipped normH l}"
proof (induction rows arbitrary: idx)
  case Nil
  show ?case by (simp add: keptRows_Nil)
next
  case (Cons line rest)
  show ?case by (auto simp: keptRows_Cons Cons.IH)
qed

lemma processRow_files:
  "snd (processRow now normH idx line (um, fm)) =
     (if skipped normH line then fm
      else map_modify
             (if itemCode_of normH line \<in> set (map fst fm) then fm
              else fm @ [(itemCode_of normH line,
                          newFile normH line (fst (processRow now normH idx line (um, fm))))])
             (itemCode_of normH line) (addRow now normH idx line))"
  by (simp add: processRow_def Let_def map_has_iff map_set_def)

lemma map_modify_alt:
  "map_modify m k f = map (\<lambda>(k', v). (k', if k' = k then f v else v)) m"
  unfolding map_modify_def by (rule map_cong) auto

lemma set_map_modify:
  "(k', v) \<in> set (map_modify m k f)
     \<longleftrightarrow> (\<exists>v0. (k', v0) \<in> set m \<and> v = (if k' = k then f v0 else v0))"
  unfolding map_modify_alt by force

lemma processRow_user_lookup_mono:
  "map_of um k = Some u \<Longrightarrow> map_of (fst (processRow now normH idx line (um, fm))) k = Some u"
  by (simp add: processRow_users map_add_Some_iff)

lemma processRow_owner_present:
  assumes "\<not> skipped normH line"
  shows "\<exists>u. map_get (fst (processRow now normH idx line (um, fm)))
               (normalizeCNIC (rawCNIC_of normH line)) = Some u"
proof (cases "normalizeCNIC (rawCNIC_of normH line) \<in> set (map fst um)")
  case True
  then obtain u where "map_of um (normalizeCNIC (rawCNIC_of normH line)) = Some u"
    by (metis map_of_eq_None_iff not_Some_eq set_map)
  then show ?thesis by (simp add: map_get_def processRow_user_lookup_mono)
next
  case False
  then have "map_of um (normalizeCNIC (rawCNIC_of normH line)) = None"
    by (simp add: map_of_eq_None_iff)
  with False assms show ?thesis
    by (simp add: map_get_def processRow_users map_add_Some_iff)
qed

subsection \<open>Ingestion: all rows\<close>

lemma processRows_invariant:
  assumes "P maps"
    and "\<And>idx line um fm. P (um, fm) \<Longrightarrow> \<not> skipped normH line
           \<Longrightarrow> P (processRow now normH idx line (um, fm))"
  shows "P (processRows now normH idx rows maps)"
  using assms(1)
proof (induction rows arbitrary: idx maps)
  case Nil
  then show ?case by simp
next
  case (Cons line rest)
  have "P (processRow now normH idx line maps)"
  proof (cases "skipped normH line")
    case True
    with Cons.prems show ?thesis by (simp add: processRow_skipped)
  next
    case False
    with Cons.prems assms(2)[of "fst maps" "snd maps" line idx] show ?thesis by simp
  qed
  then show ?case by (simp add: Cons.IH)
qed

lemma processRows_as_fold:
  "processRows now normH idx rows maps =
     foldl (\<lambda>m (i, l). processRow now normH i l m) maps (keptRows normH idx rows)"
  by (induction rows arbitrary: idx maps) (simp_all add: keptRows_Nil keptRows_Cons processRow_skipped)

lemma processRows_user_keys:
  "set (map fst (fst (processRows now normH idx rows (um, fm)))) =
     set (map fst um)
     \<union> (\<lambda>l. normalizeCNIC (rawCNIC_of normH l)) ` {l \<in> set rows. \<not> skipped normH l}"
proof (induction rows arbitrary: idx um fm)
  case Nil
  show ?case by simp
next
  case (Cons line rest)
  obtain um' fm' where step: "processRow now normH idx line (um, fm) = (um', fm')"
    by (cases "processRow now normH idx line (um, fm)")
  have um': "um' = fst (processRow now normH idx line (um, fm))" using step by simp
  show ?case
    unfolding processRows.simps step Cons.IH
    by (auto simp: um' processRow_users)
qed

lemma processRows_file_keys:
  "set (map fst (snd (processRows now normH idx rows (um, fm)))) =
     set (map fst fm) \<union> itemCode_of normH ` {l \<in> set rows. \<not> skipped normH l}"
proof (induction rows arbitrary: idx um fm)
  case Nil
  show ?case by simp
next
  case (Cons line rest)
  obtain um' fm' where step: "processRow now normH idx line (um, fm) = (um', fm')"
    by (cases "processRow now normH idx line (um, fm)")
  have fm': "map fst fm' = map fst (snd (processRow now normH idx line (um, fm)))"
    using step by simp
  have "set (map fst fm') =
          set (map fst fm) \<union> (if skipped normH line then {} else {itemCode_of normH line})"
    unfolding fm' processRow_file_keys by auto
  then show ?case
    unfolding processRows.simps step Cons.IH by auto
qed

lemma processRows_distinct:
  fixes um :: "User jsmap" and fm :: "PropertyFile jsmap"
  assumes "distinct (map fst um)" and "distinct (map fst fm)"
  shows "distinct (map fst (fst (processRows now normH idx rows (um, fm))))
         \<and> distinct (map fst (snd (processRows now normH idx rows (um, fm))))"
proof (rule processRows_invariant[where P = "\<lambda>m. distinct (map fst (fst m)) \<and> distinct (map fst (snd m))"])
  show "distinct (map fst (fst (um, fm))) \<and> distinct (map fst (snd (um, fm)))"
    using assms by simp
next
  fix idx line and um :: "User jsmap" and fm :: "PropertyFile jsmap"
  assume "distinct (map fst (fst (um, fm))) \<and> distinct (map fst (snd (um, fm)))"
  then show "distinct (map fst (fst (processRow now normH idx line (um, fm))))
             \<and> distinct (map fst (snd (processRow now normH idx line (um, fm))))"
    by (simp add: processRow_users processRow_file_keys)
qed

lemma processRows_keyed:
  fixes um :: "User jsmap" and fm :: "PropertyFile jsmap"
  assumes "\<forall>(k, u) \<in> set um. normalizeCNIC (cnic u) = k" and "\<forall>(c, f) \<in> set fm. fileNo f = c"
  shows "(\<forall>(k, u) \<in> set (fst (processRows now normH idx rows (um, fm))). normalizeCNIC (cnic u) = k)
         \<and> (\<forall>(c, f) \<in> set (snd (processRows now normH idx rows (um, fm))). fileNo f = c)"
proof (rule processRows_invariant[where P = "\<lambda>m. (\<forall>(k, u) \<in> set (fst m). normalizeCNIC (cnic u) = k)
                                                \<and> (\<forall>(c, f) \<in> set (snd m). fileNo f = c)"])
  show "(\<forall>(k, u) \<in> set (fst (um, fm)). normalizeCNIC (cnic u) = k)
        \<and> (\<forall>(c, f) \<in> set (snd (um, fm)). fileNo f = c)"
    using assms by simp
next
  fix idx line and um :: "User jsmap" and fm :: "PropertyFile jsmap"
  assume inv: "(\<forall>(k, u) \<in> set (fst (um, fm)). normalizeCNIC (cnic u) = k)
               \<and> (\<forall>(c, f) \<in> set (snd (um, fm)). fileNo f = c)"
    and kept: "\<not> skipped normH line"
  have 1: "\<forall>(k, u) \<in> set (fst (processRow now normH idx line (um, fm))). normalizeCNIC (cnic u) = k"
    using inv by (auto simp: processRow_users newUser_fields)
  have 2: "\<forall>(c, f) \<in> set (snd (processRow now normH idx line (um, fm))). fileNo f = c"
  proof (clarify)
    fix c f
    assume m: "(c, f) \<in> set (snd (processRow now normH idx line (um, fm)))"
    let ?code = "itemCode_of normH line"
    let ?fm1 = "if ?code \<in> set (map fst fm) then fm
                else fm @ [(?code, newFile normH line (fst (processRow now normH idx line (um, fm))))]"
    from m kept have "(c, f) \<in> set (map_modify ?fm1 ?code (addRow now normH idx line))"
      by (simp add: processRow_files)
    then obtain v0 where v0: "(c, v0) \<in> set ?fm1"
      and f: "f = (if c = ?code then addRow now normH idx line v0 else v0)"
      unfolding set_map_modify by blast
    have "fileNo v0 = c"
    proof (cases "(c, v0) \<in> set fm")
      case True
      with inv show ?thesis by auto
    next
      case False
      with v0 have "c = ?code \<and> v0 = newFile normH line (fst (processRow now normH idx line (um, fm)))"
        by (auto split: if_splits)
      then show ?thesis by (simp add: newFile_fields)
    qed
    then show "fileNo f = c" using f by (simp add: addRow_fields)
  qed
  from 1 2 show "(\<forall>(k, u) \<in> set (fst (processRow now normH idx line (um, fm))). normalizeCNIC (cnic u) = k)
        \<and> (\<forall>(c, f) \<in> set (snd (processRow now normH idx line (um, fm))). fileNo f = c)"
    by simp
qed

lemma processRows_file_lookup_present:
  assumes "map_of fm c = Some f"
  shows "map_of (snd (processRows now normH idx rows (um, fm))) c =
           Some (addRows now normH
                   (filter (\<lambda>(i, l). itemCode_of normH l = c) (keptRows normH idx rows)) f)"
  using assms
proof (induction rows arbitrary: idx um fm f)
  case Nil
  then show ?case by (simp add: keptRows_Nil addRows_Nil)
next
  case (Cons line rest)
  obtain um' fm' where step: "processRow now normH idx line (um, fm) = (um', fm')"
    by (cases "processRow now normH idx line (um, fm)")
  have look: "map_of fm' c = map_of (snd (processRow now normH idx line (um, fm))) c"
    using step by simp
  show ?case
  proof (cases "skipped normH line \<or> c \<noteq> itemCode_of normH line")
    case True
    then have "map_of fm' c = Some f"
      unfolding look processRow_file_lookup using Cons.prems by simp
    from Cons.IH[OF this] True show ?thesis
      unfolding processRows.simps step by (auto simp: keptRows_Cons)
  next
    case False
    then have "map_of fm' c = Some (addRow now normH idx line f)"
      unfolding look processRow_file_lookup using Cons.prems by simp
    from Cons.IH[OF this] False show ?thesis
      unfolding processRows.simps step by (simp add: keptRows_Cons addRows_Cons)
  qed
qed

lemma processRows_file_lookup_absent:
  assumes "map_of fm c = None"
  shows "case filter (\<lambda>(i, l). itemCode_of normH l = c) (keptRows normH idx rows) of
           [] \<Rightarrow> map_of (snd (processRows now normH idx rows (um, fm))) c = None
         | (j, l) # rest \<Rightarrow>
             (\<exists>u. map_of (snd (processRows now normH idx rows (um, fm))) c
                     = Some (addRows now normH ((j, l) # rest) (newFile normH l u)))"
  using assms
proof (induction rows arbitrary: idx um fm)
  case Nil
  then show ?case by (simp add: keptRows_Nil)
next
  case (Cons line rest)
  obtain um' fm' where step: "processRow now normH idx line (um, fm) = (um', fm')"
    by (cases "processRow now normH idx line (um, fm)")
  have look: "map_of fm' c = map_of (snd (processRow now normH idx line (um, fm))) c"
    using step by simp
  show ?case
  proof (cases "skipped normH line \<or> c \<noteq> itemCode_of normH line")
    case True
    then have "map_of fm' c = None"
      unfolding look processRow_file_lookup using Cons.prems by simp
    from Cons.IH[OF this, of "Suc idx" um'] True show ?thesis
      unfolding processRows.simps step by (auto simp: keptRows_Cons)
  next
    case False
    then have "map_of fm' c = Some (addRow now normH idx line (newFile normH line um'))"
      unfolding look processRow_file_lookup using Cons.prems step by simp
    from processRows_file_lookup_present[OF this, of now normH "Suc idx" rest um'] False
    show ?thesis
      unfolding processRows.simps step by (auto simp: keptRows_Cons addRows_Cons)
  qed
qed

lemma processRows_owner_link:
  fixes um :: "User jsmap" and fm :: "PropertyFile jsmap"
  assumes "\<forall>(c, f) \<in> set fm.
             \<exists>u. map_of um (normalizeCNIC (ownerCNIC f)) = Some u \<and> name u = ownerName f"
  shows "\<forall>(c, f) \<in> set (snd (processRows now normH idx rows (um, fm))).
           \<exists>u. map_of (fst (processRows now normH idx rows (um, fm))) (normalizeCNIC (ownerCNIC f))
                  = Some u \<and> name u = ownerName f"
proof (rule processRows_invariant[where P = "\<lambda>m. \<forall>(c, f) \<in> set (snd m).
           \<exists>u. map_of (fst m) (normalizeCNIC (ownerCNIC f)) = Some u \<and> name u = ownerName f"])
  show "\<forall>(c, f) \<in> set (snd (um, fm)).
           \<exists>u. map_of (fst (um, fm)) (normalizeCNIC (ownerCNIC f)) = Some u \<and> name u = ownerName f"
    using assms by simp
next
  fix idx line and um :: "User jsmap" and fm :: "PropertyFile jsmap"
  assume inv: "\<forall>(c, f) \<in> set (snd (um, fm)).
           \<exists>u. map_of (fst (um, fm)) (normalizeCNIC (ownerCNIC f)) = Some u \<and> name u = ownerName f"
    and kept: "\<not> skipped normH line"
  let ?um' = "fst (processRow now normH idx line (um, fm))"
  let ?code = "itemCode_of normH line"
  let ?fm1 = "if ?code \<in> set (map fst fm) then fm else fm @ [(?code, newFile normH line ?um')]"
  show "\<forall>(c, f) \<in> set (snd (processRow now normH idx line (um, fm))).
           \<exists>u. map_of ?um' (normalizeCNIC (ownerCNIC f)) = Some u \<and> name u = ownerName f"
  proof (clarify)
    fix c f
    assume m: "(c, f) \<in> set (snd (processRow now normH idx line (um, fm)))"
    from m kept have "(c, f) \<in> set (map_modify ?fm1 ?code (addRow now normH idx line))"
      by (simp add: processRow_files)
    then obtain v0 where v0: "(c, v0) \<in> set ?fm1"
      and f: "f = (if c = ?code then addRow now normH idx line v0 else v0)"
      unfolding set_map_modify by blast
    have same: "ownerCNIC f = ownerCNIC v0" "ownerName f = ownerName v0"
      using f by (simp_all add: addRow_fields)
    have "\<exists>u. map_of ?um' (normalizeCNIC (ownerCNIC v0)) = Some u \<and> name u = ownerName v0"
    proof (cases "(c, v0) \<in> set fm")
      case True
      with inv obtain u where "map_of um (normalizeCNIC (ownerCNIC v0)) = Some u"
        and "name u = ownerName v0" by auto
      then show ?thesis using processRow_user_lookup_mono by blast
    next
      case False
      with v0 have new: "v0 = newFile normH line ?um'"
        by (auto split: if_splits)
      from processRow_owner_present[OF kept, of now idx um fm]
      obtain u where "map_get ?um' (normalizeCNIC (rawCNIC_of normH line)) = Some u" by blast
      then show ?thesis by (simp add: new newFile_fields map_get_def)
    qed
    then show "\<exists>u. map_of ?um' (normalizeCNIC (ownerCNIC f)) = Some u \<and> name u = ownerName f"
      by (simp add: same)
  qed
qed

subsection \<open>The scenario texts, evaluated\<close>

lemma scenario_normH:
  "headerOf scenarioHeader = [''cnic'', ''itemcode'', ''paid'', ''balance'']"
  by (simp add: headerOf_def scenarioHeader_def parseCSVLine_def trim_def isWhiteSpace_def
      toLowerCase_def lowerChar_def)

lemma scenario_cells:
  "parseCSVLine scenarioRow1 = [''35202-1234567-1'', ''F1'', ''500'', ''1,500.00'']"
  "parseCSVLine scenarioRow2 = [''35202-1234567-1'', ''F1'', ''300'', ''(200)'']"
  "parseCSVLine rowWithoutIdentity = ['''', ''F1'', ''300'', ''(200)'']"
  by (simp_all add: scenarioRow1_def scenarioRow2_def rowWithoutIdentity_def parseCSVLine_def
      trim_def isWhiteSpace_def)

lemma alias_lower:
  "map toLowerCase [''ocnic'', ''cnic'', ''u_ocnic''] = [''ocnic'', ''cnic'', ''u_ocnic'']"
  "map toLowerCase [''itemcode'', ''item_code'', ''u_itemcode'']
     = [''itemcode'', ''item_code'', ''u_itemcode'']"
  "map toLowerCase [''reconsum'', ''paid''] = [''reconsum'', ''paid'']"
  "map toLowerCase [''balduedeb'', ''balance''] = [''balduedeb'', ''balance'']"
  by (simp_all add: toLowerCase_def lowerChar_def)

lemma scenario_index:
  "getIdx [''cnic'', ''itemcode'', ''paid'', ''balance''] [''ocnic'', ''cnic'', ''u_ocnic'']
     = Some 0"
  "getIdx [''cnic'', ''itemcode'', ''paid'', ''balance''] [''itemcode'', ''item_code'', ''u_itemcode'']
     = Some 1"
  "getIdx [''cnic'', ''itemcode'', ''paid'', ''balance''] [''reconsum'', ''paid''] = Some 2"
  "getIdx [''cnic'', ''itemcode'', ''paid'', ''balance''] [''balduedeb'', ''balance''] = Some 3"
  using alias_lower by simp_all

lemma scenario_col:
  "col (headerOf scenarioHeader) (parseCSVLine scenarioRow1) [''ocnic'', ''cnic'', ''u_ocnic'']
     = Some ''35202-1234567-1''"
  "col (headerOf scenarioHeader) (parseCSVLine scenarioRow1) [''itemcode'', ''item_code'', ''u_itemcode'']
     = Some ''F1''"
  "col (headerOf scenarioHeader) (parseCSVLine scenarioRow1) [''reconsum'', ''paid''] = Some ''500''"
  "col (headerOf scenarioHeader) (parseCSVLine scenarioRow1) [''balduedeb'', ''balance'']
     = Some ''1,500.00''"
  "col (headerOf scenarioHeader) (parseCSVLine scenarioRow2) [''ocnic'', ''cnic'', ''u_ocnic'']
     = Some ''35202-1234567-1''"
  "col (headerOf scenarioHeader) (parseCSVLine scenarioRow2) [''itemcode'', ''item_code'', ''u_itemcode'']
     = Some ''F1''"
  "col (headerOf scenarioHeader) (parseCSVLine scenarioRow2) [''reconsum'', ''paid''] = Some ''300''"
  "col (headerOf scenarioHeader) (parseCSVLine scenarioRow2) [''balduedeb'', ''balance'']
     = Some ''(200)''"
  "col (headerOf scenarioHeader) (parseCSVLine rowWithoutIdentity) [''ocnic'', ''cnic'', ''u_ocnic'']
     = Some []"
  "col (headerOf scenarioHeader) (parseCSVLine rowWithoutIdentity)
     [''itemcode'', ''item_code'', ''u_itemcode''] = Some ''F1''"
  "col (headerOf scenarioHeader) (parseCSVLine rowWithoutIdentity) [''reconsum'', ''paid'']
     = Some ''300''"
  unfolding col_def scenario_normH scenario_cells scenario_index
  by (simp_all add: trim_def isWhiteSpace_def)

lemma parseVal_amounts:
  "parseVal (Some ''500'') = Val 500" "parseVal (Some ''300'') = Val 300"
proof -
  have d: "list_all isDigit ''500''" "list_all isDigit ''300''" by (simp_all add: isDigit_def)
  have u: "toUpperCase ''500'' \<noteq> ''NULL''" "toUpperCase ''300'' \<noteq> ''NULL''"
    by (simp_all add: toUpperCase_def upperChar_def)
  have v: "digitsValue ''500'' = 500" "digitsValue ''300'' = 300"
    by (simp_all add: digitsValue_def digitVal_def)
  have "parseVal (Some ''500'') = Val (of_nat (digitsValue ''500''))"
    by (rule parseVal_plain_digits[OF _ d(1) u(1)]) (simp_all add: v)
  then show "parseVal (Some ''500'') = Val 500" by (simp only: v of_nat_numeral)
  have "parseVal (Some ''300'') = Val (of_nat (digitsValue ''300''))"
    by (rule parseVal_plain_digits[OF _ d(2) u(2)]) (simp_all add: v)
  then show "parseVal (Some ''300'') = Val 300" by (simp only: v of_nat_numeral)
qed

lemma parseFloat_1500_00: "parseFloat ''1500.00'' = Val 1500"
  by (simp add: parseFloat_def trimStart_def isWhiteSpace_def strUnsignedDecimalLiteral_def
      isDigit_def exponentPart_def decimalValue_def pow10_def digitsValue_def digitVal_def)

lemma parseVal_1500_grouped: "parseVal (Some ''1,500.00'') = Val 1500"
proof -
  have "toUpperCase ''1,500.00'' \<noteq> ''NULL''" by (simp add: toUpperCase_def upperChar_def)
  then show ?thesis using parseFloat_1500_00 by (simp add: parseVal_def truthy_def)
qed

lemma normalize_scenario: "normalizeCNIC ''35202-1234567-1'' = ''3520212345671''"
  by (simp add: normalizeCNIC_def isDigit_def)

lemma scenario_row_values:
  "rawCNIC_of (headerOf scenarioHeader) scenarioRow1 = ''35202-1234567-1''"
  "rawCNIC_of (headerOf scenarioHeader) scenarioRow2 = ''35202-1234567-1''"
  "rawCNIC_of (headerOf scenarioHeader) rowWithoutIdentity = []"
  "itemCode_of (headerOf scenarioHeader) scenarioRow1 = ''F1''"
  "itemCode_of (headerOf scenarioHeader) scenarioRow2 = ''F1''"
  "itemCode_of (headerOf scenarioHeader) rowWithoutIdentity = ''F1''"
  "paidVal_of (headerOf scenarioHeader) scenarioRow1 = Val 500"
  "paidVal_of (headerOf scenarioHeader) scenarioRow2 = Val 300"
  "paidVal_of (headerOf scenarioHeader) rowWithoutIdentity = Val 300"
  "osVal_of (headerOf scenarioHeader) scenarioRow1 = Val 1500"
  "osVal_of (headerOf scenarioHeader) scenarioRow2 = Val 200"
  unfolding rawCNIC_of_def itemCode_of_def paidVal_of_def osVal_of_def scenario_col
  by (simp_all add: orElse_def parseVal_amounts parseVal_1500_grouped parseVal_200_parens)

lemma normalize_empty: "normalizeCNIC [] = []"
  by (simp add: normalizeCNIC_def)

lemma scenario_skipped:
  "\<not> skipped (headerOf scenarioHeader) scenarioRow1"
  "\<not> skipped (headerOf scenarioHeader) scenarioRow2"
  "skipped (headerOf scenarioHeader) rowWithoutIdentity"
  unfolding skipped_def scenario_row_values
  by (simp_all add: normalize_scenario normalize_empty)

lemma scenario_rowsOfFile:
  "rowsOfFile (headerOf scenarioHeader) ''F1'' [scenarioRow1, scenarioRow2]
     = [(0, scenarioRow1), (1, scenarioRow2)]"
  "rowsOfFile (headerOf scenarioHeader) ''F1'' [scenarioRow1, rowWithoutIdentity]
     = [(0, scenarioRow1)]"
  by (simp_all add: rowsOfFile_def keptRows_Cons keptRows_Nil scenario_skipped scenario_row_values)

lemma skippedRow_lines:
  "nonEmptyLines skippedRowCSV = [scenarioHeader, scenarioRow1, rowWithoutIdentity]"
  by (simp add: skippedRowCSV_def scenarioHeader_def scenarioRow1_def rowWithoutIdentity_def
      nonEmptyLines_def splitLines_def trim_def isWhiteSpace_def)

subsection \<open>The identity key\<close>

lemma digit_chars: "char_of ` {48::nat, 49, 50, 51, 52, 53, 54, 55, 56, 57} = set ''0123456789''"
  by code_simp

lemma char_of_x: "char_of (120::nat) = CHR ''x''" "char_of (88::nat) = CHR ''X''"
  by code_simp+

lemma isDigit_iff: "isDigit c \<longleftrightarrow> c \<in> set ''0123456789''"
proof
  assume "isDigit c"
  then have "48 \<le> (of_char c :: nat) \<and> (of_char c :: nat) \<le> 57"
    by (simp add: isDigit_def)
  then have "(of_char c :: nat) = 48 \<or> (of_char c :: nat) = 49 \<or> (of_char c :: nat) = 50
      \<or> (of_char c :: nat) = 51 \<or> (of_char c :: nat) = 52 \<or> (of_char c :: nat) = 53
      \<or> (of_char c :: nat) = 54 \<or> (of_char c :: nat) = 55 \<or> (of_char c :: nat) = 56
      \<or> (of_char c :: nat) = 57"
    by arith
  then have "(of_char c :: nat) \<in> {48, 49, 50, 51, 52, 53, 54, 55, 56, 57}"
    by blast
  then have "char_of (of_char c :: nat) \<in> char_of ` {48::nat, 49, 50, 51, 52, 53, 54, 55, 56, 57}"
    by (rule imageI)
  then show "c \<in> set ''0123456789''"
    unfolding digit_chars by simp
next
  assume "c \<in> set ''0123456789''"
  then show "isDigit c" by (auto simp: isDigit_def)
qed

lemma normalizeCNIC_alphabet: "normalizeCNIC s = filter (\<lambda>c. c \<in> set ''0123456789X'') s"
  unfolding normalizeCNIC_def by (rule filter_cong) (auto simp: isDigit_iff)

lemma upperChar_keeps_key_chars:
  assumes "c \<noteq> CHR ''x''"
  shows "filter (\<lambda>c. isDigit c \<or> c = CHR ''X'') (upperChar c)
           = (if isDigit c \<or> c = CHR ''X'' then [c] else [])"
proof -
  let ?n = "of_char c :: nat"
  have x: "?n \<noteq> 120"
  proof
    assume "?n = 120"
    then have "char_of ?n = (char_of (120::nat) :: char)" by simp
    then have "c = CHR ''x''" by (simp add: char_of_x)
    with assms show False by simp
  qed
  have X: "c = CHR ''X'' \<longleftrightarrow> ?n = 88"
  proof
    assume "c = CHR ''X''" then show "?n = 88" by simp
  next
    assume "?n = 88"
    then have "char_of ?n = (char_of (88::nat) :: char)" by simp
    then show "c = CHR ''X''" by (simp add: char_of_x)
  qed
  have up: "\<not> isDigit (char_of (?n - 32)) \<and> char_of (?n - 32) \<noteq> CHR ''X''"
    if "(97 \<le> ?n \<and> ?n \<le> 122) \<or> (224 \<le> ?n \<and> ?n \<le> 254 \<and> ?n \<noteq> 247)"
  proof -
    have lt: "?n - 32 < 256" using that by auto
    have v: "(of_char (char_of (?n - 32) :: char) :: nat) = ?n - 32"
      using lt by simp
    have "char_of (?n - 32) \<noteq> CHR ''X''"
    proof
      assume "char_of (?n - 32) = CHR ''X''"
      then have "(of_char (char_of (?n - 32) :: char) :: nat) = of_char CHR ''X''" by simp
      with v have "?n - 32 = 88" by simp
      with that x show False by auto
    qed
    moreover have "\<not> isDigit (char_of (?n - 32))"
      using that v by (auto simp: isDigit_def)
    ultimately show ?thesis by simp
  qed
  show ?thesis
  proof (cases "(97 \<le> ?n \<and> ?n \<le> 122) \<or> (224 \<le> ?n \<and> ?n \<le> 254 \<and> ?n \<noteq> 247)")
    case True
    then have "\<not> isDigit c" "c \<noteq> CHR ''X''" using X by (auto simp: isDigit_def)
    with True up[OF True] show ?thesis by (simp add: upperChar_def Let_def)
  next
    case nc: False
    have rest: "upperChar c = (if ?n = 223 then ''SS'' else [c])"
      unfolding upperChar_def Let_def by (rule if_not_P[OF nc])
    show ?thesis
    proof (cases "?n = 223")
      case True
      then have "\<not> isDigit c" "c \<noteq> CHR ''X''" using X by (auto simp: isDigit_def)
      moreover have "\<not> isDigit CHR ''S''" by (simp add: isDigit_def)
      ultimately show ?thesis using True by (simp add: rest)
    next
      case False
      then show ?thesis by (simp add: rest)
    qed
  qed
qed

lemma normalizeCNIC_spec_agrees:
  "CHR ''x'' \<notin> set s \<Longrightarrow> normalizeCNIC_spec s = normalizeCNIC s"
proof (induction s)
  case Nil
  show ?case by (simp add: normalizeCNIC_spec_def normalizeCNIC_def toUpperCase_def)
next
  case (Cons c s)
  then have c: "c \<noteq> CHR ''x''" and s: "CHR ''x'' \<notin> set s" by auto
  have "normalizeCNIC_spec (c # s)
          = filter (\<lambda>c. isDigit c \<or> c = CHR ''X'') (upperChar c) @ normalizeCNIC_spec s"
    by (simp add: normalizeCNIC_spec_def toUpperCase_def)
  also have "\<dots> = (if isDigit c \<or> c = CHR ''X'' then [c] else []) @ normalizeCNIC s"
    using upperChar_keeps_key_chars[OF c] Cons.IH[OF s] by simp
  also have "\<dots> = normalizeCNIC (c # s)"
    by (simp add: normalizeCNIC_def)
  finally show ?case .
qed

lemma spec_counter:
  "normalizeCNIC ''35202-1234567-x'' = ''352021234567''"
  "normalizeCNIC_spec ''35202-1234567-x'' = ''352021234567X''"
  by (simp_all add: normalizeCNIC_def normalizeCNIC_spec_def toUpperCase_def upperChar_def
      isDigit_def char_of_x)

lemma upperChar_x: "upperChar CHR ''x'' = ''X''"
  by (simp add: upperChar_def char_of_x)

lemma normalizeCNIC_spec_length:
  "length (normalizeCNIC_spec s)
     = length (normalizeCNIC s) + length (filter (\<lambda>c. c = CHR ''x'') s)"
proof (induction s)
  case Nil
  show ?case by (simp add: normalizeCNIC_spec_def normalizeCNIC_def toUpperCase_def)
next
  case (Cons c s)
  have split: "normalizeCNIC_spec (c # s)
          = filter (\<lambda>c. isDigit c \<or> c = CHR ''X'') (upperChar c) @ normalizeCNIC_spec s"
    by (simp add: normalizeCNIC_spec_def toUpperCase_def)
  show ?case
  proof (cases "c = CHR ''x''")
    case True
    have "\<not> isDigit CHR ''x''" by (simp add: isDigit_def)
    then show ?thesis
      unfolding split using Cons.IH by (simp add: True upperChar_x normalizeCNIC_def)
  next
    case False
    show ?thesis
      unfolding split upperChar_keeps_key_chars[OF False] using Cons.IH False
      by (simp add: normalizeCNIC_def)
  qed
qed

lemma normalizeCNIC_spec_differs:
  assumes "CHR ''x'' \<in> set s"
  shows "normalizeCNIC_spec s \<noteq> normalizeCNIC s"
proof
  assume "normalizeCNIC_spec s = normalizeCNIC s"
  then have "length (normalizeCNIC_spec s) = length (normalizeCNIC s)" by simp
  then have "filter (\<lambda>c. c = CHR ''x'') s = []"
    unfolding normalizeCNIC_spec_length by simp
  with assms show False by (auto simp: filter_empty_conv)
qed

lemma normalizeCNIC_spec_iff:
  "normalizeCNIC_spec s = normalizeCNIC s \<longleftrightarrow> CHR ''x'' \<notin> set s"
  using normalizeCNIC_spec_agrees[of s] normalizeCNIC_spec_differs[of s] by blast

subsection \<open>Ingestion: the batch of a text\<close>

lemma ingest_rows:
  assumes "ingest now text = Some maps" and "nonEmptyLines text = h # rows"
  shows "maps = processRows now (headerOf h) 0 rows ([], [])"
  using assms by (auto simp: ingest_def split: list.splits)

lemma ingest_Some:
  "nonEmptyLines text = h # r # rows
     \<Longrightarrow> ingest now text = Some (processRows now (headerOf h) 0 (r # rows) ([], []))"
  by (simp add: ingest_def)

lemma keys_of_values:
  assumes "\<forall>(k, e) \<in> set m. key e = k"
  shows "map key (map_values m) = map fst m"
proof -
  have "map fst (map (\<lambda>e. (key e, e)) (map snd m)) = map fst m"
    using keyed_values[OF assms] by simp
  then show ?thesis by (simp add: map_values_def comp_def)
qed

lemma keyed_map_get:
  assumes "distinct (map fst m)" and "\<forall>(k, e) \<in> set m. key e = k"
  shows "map_get m k = Some e \<longleftrightarrow> e \<in> set (map_values m) \<and> key e = k"
proof
  assume "map_get m k = Some e"
  then have "(k, e) \<in> set m" by (simp add: map_get_def map_of_SomeD)
  with assms(2) show "e \<in> set (map_values m) \<and> key e = k"
    by (force simp: map_values_def)
next
  assume "e \<in> set (map_values m) \<and> key e = k"
  then obtain k' where "(k', e) \<in> set m" and "key e = k" by (auto simp: map_values_def)
  with assms(2) have "(k, e) \<in> set m" by auto
  with assms(1) show "map_get m k = Some e" by (simp add: map_get_def)
qed

lemma ingest_wellformed:
  assumes "ingest now text = Some (userMap, fileMap)"
  shows "distinct (map fst userMap)" "distinct (map fst fileMap)"
    "\<forall>(k, u) \<in> set userMap. normalizeCNIC (cnic u) = k"
    "\<forall>(c, f) \<in> set fileMap. fileNo f = c"
    "\<forall>(c, f) \<in> set fileMap.
       \<exists>u. map_of userMap (normalizeCNIC (ownerCNIC f)) = Some u \<and> name u = ownerName f"
proof -
  from assms obtain h rows where "nonEmptyLines text = h # rows"
    by (auto simp: ingest_def split: list.splits)
  from ingest_rows[OF assms this]
  have m: "(userMap, fileMap) = processRows now (headerOf h) 0 rows ([], [])" .
  have um: "userMap = fst (processRows now (headerOf h) 0 rows ([], []))"
    and fm: "fileMap = snd (processRows now (headerOf h) 0 rows ([], []))"
    using m by (metis fst_conv, metis snd_conv)
  show "distinct (map fst userMap)" "distinct (map fst fileMap)"
    unfolding um fm using processRows_distinct[of "[]" "[]" now "headerOf h" 0 rows] by simp_all
  show "\<forall>(k, u) \<in> set userMap. normalizeCNIC (cnic u) = k" "\<forall>(c, f) \<in> set fileMap. fileNo f = c"
    unfolding um fm using processRows_keyed[of "[]" "[]" now "headerOf h" 0 rows] by simp_all
  show "\<forall>(c, f) \<in> set fileMap.
       \<exists>u. map_of userMap (normalizeCNIC (ownerCNIC f)) = Some u \<and> name u = ownerName f"
    unfolding um fm using processRows_owner_link[of "[]" "[]" now "headerOf h" 0 rows] by simp
qed

lemma ingest_keys:
  assumes "ingest now text = Some (userMap, fileMap)" and "nonEmptyLines text = h # rows"
  shows "set (map fst userMap)
           = set (map (\<lambda>(i, l). normalizeCNIC (rawCNIC_of (headerOf h) l)) (keptRows (headerOf h) 0 rows))"
    and "set (map fst fileMap)
           = set (map (\<lambda>(i, l). itemCode_of (headerOf h) l) (keptRows (headerOf h) 0 rows))"
proof -
  from ingest_rows[OF assms]
  have m: "(userMap, fileMap) = processRows now (headerOf h) 0 rows ([], [])" .
  have um: "userMap = fst (processRows now (headerOf h) 0 rows ([], []))"
    and fm: "fileMap = snd (processRows now (headerOf h) 0 rows ([], []))"
    using m by (metis fst_conv, metis snd_conv)
  have k: "(\<lambda>(i, l). g l) ` set (keptRows (headerOf h) 0 rows)
             = g ` {l \<in> set rows. \<not> skipped (headerOf h) l}" for g :: "string \<Rightarrow> string"
    using keptRows_lines[of "headerOf h" 0 rows] by (force simp: image_iff)
  show "set (map fst userMap)
           = set (map (\<lambda>(i, l). normalizeCNIC (rawCNIC_of (headerOf h) l)) (keptRows (headerOf h) 0 rows))"
    unfolding um processRows_user_keys by (simp add: k)
  show "set (map fst fileMap)
           = set (map (\<lambda>(i, l). itemCode_of (headerOf h) l) (keptRows (headerOf h) 0 rows))"
    unfolding fm processRows_file_keys by (simp add: k)
qed

lemma ingest_file:
  assumes "ingest now text = Some (userMap, fileMap)" and "nonEmptyLines text = h # rows"
    and "rowsOfFile (headerOf h) c rows = (j, l) # rest"
  shows "\<exists>u. map_get fileMap c
               = Some (addRows now (headerOf h) ((j, l) # rest) (newFile (headerOf h) l u))"
proof -
  from ingest_rows[OF assms(1,2)]
  have fm: "fileMap = snd (processRows now (headerOf h) 0 rows ([], []))"
    by (metis snd_conv)
  have "map_of ([] :: PropertyFile jsmap) c = None" by simp
  from processRows_file_lookup_absent[OF this,
      where normH = "headerOf h" and idx = 0 and rows = rows and now = now and um = "[]"] assms(3)
  show ?thesis by (simp add: rowsOfFile_def fm map_get_def)
qed

lemma ingest_file_absent:
  assumes "ingest now text = Some (userMap, fileMap)" and "nonEmptyLines text = h # rows"
    and "rowsOfFile (headerOf h) c rows = []"
  shows "map_get fileMap c = None"
proof -
  from ingest_rows[OF assms(1,2)]
  have fm: "fileMap = snd (processRows now (headerOf h) 0 rows ([], []))"
    by (metis snd_conv)
  have "map_of ([] :: PropertyFile jsmap) c = None" by simp
  from processRows_file_lookup_absent[OF this,
      where normH = "headerOf h" and idx = 0 and rows = rows and now = now and um = "[]"] assms(3)
  show ?thesis by (simp add: rowsOfFile_def fm map_get_def)
qed

lemma seq_of_new_transactions:
  "map seq (map (\<lambda>(i, l). newTransaction now normH i l pv) rs) = map fst rs"
  "map amount_paid (map (\<lambda>(i, l). newTransaction now normH i l pv) rs)
     = map (\<lambda>(i, l). paidVal_of normH l) rs"
  "map balduedeb (map (\<lambda>(i, l). newTransaction now normH i l pv) rs)
     = map (\<lambda>(i, l). osVal_of normH l) rs"
  by (induction rs) (auto simp: newTransaction_fields)

lemma ingest_file_totals:
  assumes "ingest now text = Some (userMap, fileMap)" and "nonEmptyLines text = h # rows"
    and "rowsOfFile (headerOf h) c rows \<noteq> []"
  shows "\<exists>f. map_get fileMap c = Some f
           \<and> (\<forall>g. (g \<in> set (map_values fileMap) \<and> fileNo g = c) \<longleftrightarrow> g = f)
           \<and> paymentReceived f
               = js_sum (map (\<lambda>(i, l). paidVal_of (headerOf h) l) (rowsOfFile (headerOf h) c rows))
           \<and> balance f
               = js_sum (map (\<lambda>(i, l). osVal_of (headerOf h) l) (rowsOfFile (headerOf h) c rows))
           \<and> map seq (transactions f) = map fst (rowsOfFile (headerOf h) c rows)
           \<and> map amount_paid (transactions f)
               = map (\<lambda>(i, l). paidVal_of (headerOf h) l) (rowsOfFile (headerOf h) c rows)
           \<and> map balduedeb (transactions f)
               = map (\<lambda>(i, l). osVal_of (headerOf h) l) (rowsOfFile (headerOf h) c rows)"
proof -
  let ?rs = "rowsOfFile (headerOf h) c rows"
  from assms(3) obtain j l rest where rs: "?rs = (j, l) # rest"
    by (cases ?rs) auto
  from ingest_file[OF assms(1,2) rs] obtain u where
    f: "map_get fileMap c = Some (addRows now (headerOf h) ?rs (newFile (headerOf h) l u))"
    unfolding rs by blast
  let ?f = "addRows now (headerOf h) ?rs (newFile (headerOf h) l u)"
  have k: "map_get fileMap c = Some g \<longleftrightarrow> g \<in> set (map_values fileMap) \<and> fileNo g = c" for g
    by (rule keyed_map_get[OF ingest_wellformed(2)[OF assms(1)] ingest_wellformed(4)[OF assms(1)]])
  have uniq: "\<forall>g. (g \<in> set (map_values fileMap) \<and> fileNo g = c) \<longleftrightarrow> g = ?f"
  proof (intro allI)
    fix g
    have "(g \<in> set (map_values fileMap) \<and> fileNo g = c) \<longleftrightarrow> Some ?f = Some g"
      unfolding k[of g, symmetric] f ..
    then show "(g \<in> set (map_values fileMap) \<and> fileNo g = c) \<longleftrightarrow> g = ?f" by auto
  qed
  have "paymentReceived ?f = js_sum (map (\<lambda>(i, l). paidVal_of (headerOf h) l) ?rs)"
    by (simp add: addRows_paymentReceived newFile_fields js_sum_def)
  moreover have "balance ?f = js_sum (map (\<lambda>(i, l). osVal_of (headerOf h) l) ?rs)"
    by (simp add: addRows_balance newFile_fields js_sum_def)
  moreover have "map seq (transactions ?f) = map fst ?rs"
    "map amount_paid (transactions ?f) = map (\<lambda>(i, l). paidVal_of (headerOf h) l) ?rs"
    "map balduedeb (transactions ?f) = map (\<lambda>(i, l). osVal_of (headerOf h) l) ?rs"
    by (simp_all only: addRows_transactions newFile_fields append_Nil seq_of_new_transactions)
  ultimately show ?thesis using f uniq by blast
qed

lemma singleton_list:
  assumes "distinct xs" and "set xs = {a}"
  shows "xs = [a]"
proof -
  have "length xs = card (set xs)" using assms(1) by (simp add: distinct_card)
  then have "length xs = 1" using assms(2) by simp
  then obtain b where "xs = [b]" by (cases xs) auto
  with assms(2) show ?thesis by simp
qed

lemma buildMap_of_values:
  assumes "distinct (map fst m)" and "\<forall>(k, e) \<in> set m. key e = k"
  shows "buildMap key [] (map snd m) = m"
  using assms
proof (induction m rule: rev_induct)
  case Nil
  show ?case by (simp add: buildMap_def)
next
  case (snoc p m)
  obtain k e where p: "p = (k, e)" by (cases p)
  from snoc.prems have d: "distinct (map fst m)" and kd: "\<forall>(k, e) \<in> set m. key e = k"
    and new: "k \<notin> set (map fst m)" and ke: "key e = k"
    by (auto simp: p)
  have "buildMap key [] (map snd (m @ [p])) = map_set (buildMap key [] (map snd m)) (key e) e"
    by (simp add: p buildMap_snoc)
  also have "\<dots> = map_set m k e" using snoc.IH[OF d kd] ke by simp
  also have "\<dots> = m @ [p]" using new by (simp add: map_set_def map_has_iff p)
  finally show ?case .
qed

lemma mergeByKey_into_empty:
  assumes "distinct (map fst m)" and "\<forall>(k, e) \<in> set m. key e = k"
  shows "mergeByKey key [] (map_values m) = map_values m"
  using buildMap_of_values[OF assms] by (simp add: mergeByKey_buildMap map_values_def)

lemma scenario_keptRows:
  "keptRows (headerOf scenarioHeader) 0 [scenarioRow1, scenarioRow2]
     = [(0, scenarioRow1), (1, scenarioRow2)]"
  "keptRows (headerOf scenarioHeader) 0 [scenarioRow1, rowWithoutIdentity] = [(0, scenarioRow1)]"
  by (simp_all add: keptRows_Cons keptRows_Nil scenario_skipped)

lemma scenario_ingest:
  "ingest (fixedClock 0) scenarioCSV
     = Some (fst (the (ingest (fixedClock 0) scenarioCSV)),
             snd (the (ingest (fixedClock 0) scenarioCSV)))"
  "ingest (fixedClock 0) skippedRowCSV
     = Some (fst (the (ingest (fixedClock 0) skippedRowCSV)),
             snd (the (ingest (fixedClock 0) skippedRowCSV)))"
proof -
  have "ingest (fixedClock 0) scenarioCSV \<noteq> None" "ingest (fixedClock 0) skippedRowCSV \<noteq> None"
    by (simp_all add: ingest_None_iff scenario_lines skippedRow_lines)
  then show "ingest (fixedClock 0) scenarioCSV
     = Some (fst (the (ingest (fixedClock 0) scenarioCSV)),
             snd (the (ingest (fixedClock 0) scenarioCSV)))"
    "ingest (fixedClock 0) skippedRowCSV
     = Some (fst (the (ingest (fixedClock 0) skippedRowCSV)),
             snd (the (ingest (fixedClock 0) skippedRowCSV)))"
    by auto
qed

lemma scenario_keys:
  "map fst (fst (the (ingest (fixedClock 0) scenarioCSV))) = [''3520212345671'']"
  "map fst (snd (the (ingest (fixedClock 0) scenarioCSV))) = [''F1'']"
proof -
  note i = scenario_ingest(1)
  have l: "nonEmptyLines scenarioCSV = scenarioHeader # [scenarioRow1, scenarioRow2]"
    by (simp add: scenario_lines)
  have "set (map fst (fst (the (ingest (fixedClock 0) scenarioCSV)))) = {''3520212345671''}"
    unfolding ingest_keys(1)[OF i l] scenario_keptRows
    by (simp add: scenario_row_values normalize_scenario)
  then show "map fst (fst (the (ingest (fixedClock 0) scenarioCSV))) = [''3520212345671'']"
    using ingest_wellformed(1)[OF i] by (rule singleton_list[rotated])
  have "set (map fst (snd (the (ingest (fixedClock 0) scenarioCSV)))) = {''F1''}"
    unfolding ingest_keys(2)[OF i l] scenario_keptRows
    by (simp add: scenario_row_values)
  then show "map fst (snd (the (ingest (fixedClock 0) scenarioCSV))) = [''F1'']"
    using ingest_wellformed(2)[OF i] by (rule singleton_list[rotated])
qed

lemma single_entry:
  assumes "map fst m = [k]" and "map_get m k = Some e"
  shows "m = [(k, e)]" "map_values m = [e]"
proof -
  from assms(1) obtain v where m: "m = [(k, v)]" by (cases m) auto
  with assms(2) have "v = e" by (simp add: map_get_def)
  with m show "m = [(k, e)]" "map_values m = [e]" by (simp_all add: map_values_def)
qed

subsection \<open>Per-file totals\<close>

text \<open>
  Claim C1, amended. For a text that parses and a file code borne by at least one row
  that is not skipped, the batch has exactly one PropertyFile with that file number; its
  \<open>paymentReceived\<close> is the sum, taken from 0 in row order, of the parsed paid amounts
  of the rows that bear the code and are not skipped, its \<open>balance\<close> the sum of their
  parsed outstanding amounts, and its transactions are those rows in row order, each
  with its row index as \<open>seq\<close>. (A row that bears the code but has an empty identity key
  is skipped and adds nothing.) In the scenario of the claim the one file is F1 with
  \<open>paymentReceived = 800\<close>, \<open>balance = 1700\<close> and two transactions in row order.
\<close>

theorem file_totals_are_row_sums:
  assumes "ingest now text = Some (userMap, fileMap)" and "nonEmptyLines text = h # rows"
    and "rowsOfFile (headerOf h) c rows \<noteq> []"
  shows "\<exists>f. map_get fileMap c = Some f
           \<and> (\<forall>g. (g \<in> set (map_values fileMap) \<and> fileNo g = c) \<longleftrightarrow> g = f)
           \<and> paymentReceived f
               = js_sum (map (\<lambda>(i, l). paidVal_of (headerOf h) l) (rowsOfFile (headerOf h) c rows))
           \<and> balance f
               = js_sum (map (\<lambda>(i, l). osVal_of (headerOf h) l) (rowsOfFile (headerOf h) c rows))
           \<and> map seq (transactions f) = map fst (rowsOfFile (headerOf h) c rows)
           \<and> map amount_paid (transactions f)
               = map (\<lambda>(i, l). paidVal_of (headerOf h) l) (rowsOfFile (headerOf h) c rows)
           \<and> map balduedeb (transactions f)
               = map (\<lambda>(i, l). osVal_of (headerOf h) l) (rowsOfFile (headerOf h) c rows)"
  using assms by (rule ingest_file_totals)

theorem file_totals_are_row_sums_witness:
  "ingest (fixedClock 0) scenarioCSV
     = Some (fst (the (ingest (fixedClock 0) scenarioCSV)),
             snd (the (ingest (fixedClock 0) scenarioCSV)))
   \<and> nonEmptyLines scenarioCSV = scenarioHeader # [scenarioRow1, scenarioRow2]
   \<and> rowsOfFile (headerOf scenarioHeader) ''F1'' [scenarioRow1, scenarioRow2] \<noteq> []
   \<and> (\<exists>f. map_values (snd (the (ingest (fixedClock 0) scenarioCSV))) = [f]
          \<and> fileNo f = ''F1''
          \<and> paymentReceived f = Val 800
          \<and> balance f = Val 1700
          \<and> map seq (transactions f) = [0, 1]
          \<and> map amount_paid (transactions f) = [Val 500, Val 300]
          \<and> map balduedeb (transactions f) = [Val 1500, Val 200])"
proof -
  note i = scenario_ingest(1)
  have l: "nonEmptyLines scenarioCSV = scenarioHeader # [scenarioRow1, scenarioRow2]"
    by (simp add: scenario_lines)
  have r: "rowsOfFile (headerOf scenarioHeader) ''F1'' [scenarioRow1, scenarioRow2] \<noteq> []"
    by (simp add: scenario_rowsOfFile)
  have sums:
    "js_sum (map (\<lambda>(i, l). paidVal_of (headerOf scenarioHeader) l)
       (rowsOfFile (headerOf scenarioHeader) ''F1'' [scenarioRow1, scenarioRow2])) = Val 800"
    "js_sum (map (\<lambda>(i, l). osVal_of (headerOf scenarioHeader) l)
       (rowsOfFile (headerOf scenarioHeader) ''F1'' [scenarioRow1, scenarioRow2])) = Val 1700"
    "map fst (rowsOfFile (headerOf scenarioHeader) ''F1'' [scenarioRow1, scenarioRow2]) = [0, 1]"
    "map (\<lambda>(i, l). paidVal_of (headerOf scenarioHeader) l)
       (rowsOfFile (headerOf scenarioHeader) ''F1'' [scenarioRow1, scenarioRow2])
       = [Val 500, Val 300]"
    "map (\<lambda>(i, l). osVal_of (headerOf scenarioHeader) l)
       (rowsOfFile (headerOf scenarioHeader) ''F1'' [scenarioRow1, scenarioRow2])
       = [Val 1500, Val 200]"
    unfolding scenario_rowsOfFile by (simp_all add: js_sum_def scenario_row_values)
  have sums': "js_sum [Val 500, Val 300] = Val 800" "js_sum [Val 1500, Val 200] = Val 1700"
    by (simp_all add: js_sum_def)
  from file_totals_are_row_sums[OF i l r] obtain f where
    g: "map_get (snd (the (ingest (fixedClock 0) scenarioCSV))) ''F1'' = Some f"
    and u: "\<forall>g. (g \<in> set (map_values (snd (the (ingest (fixedClock 0) scenarioCSV))))
                  \<and> fileNo g = ''F1'') \<longleftrightarrow> g = f"
    and p: "paymentReceived f = Val 800"
    and b: "balance f = Val 1700"
    and s: "map seq (transactions f) = [0, 1]"
    and a: "map amount_paid (transactions f) = [Val 500, Val 300]"
    and d: "map balduedeb (transactions f) = [Val 1500, Val 200]"
    unfolding sums sums' by (elim exE conjE)
  have 1: "map_values (snd (the (ingest (fixedClock 0) scenarioCSV))) = [f]"
    by (rule single_entry(2)[OF scenario_keys(2) g])
  from u have 2: "fileNo f = ''F1''" by (elim allE[of _ f]) simp
  have "map_values (snd (the (ingest (fixedClock 0) scenarioCSV))) = [f]
          \<and> fileNo f = ''F1''
          \<and> paymentReceived f = Val 800
          \<and> balance f = Val 1700
          \<and> map seq (transactions f) = [0, 1]
          \<and> map amount_paid (transactions f) = [Val 500, Val 300]
          \<and> map balduedeb (transactions f) = [Val 1500, Val 200]"
    by (intro conjI) (fact 1 2 p b s a d)+
  then have e: "\<exists>f. map_values (snd (the (ingest (fixedClock 0) scenarioCSV))) = [f]
          \<and> fileNo f = ''F1''
          \<and> paymentReceived f = Val 800
          \<and> balance f = Val 1700
          \<and> map seq (transactions f) = [0, 1]
          \<and> map amount_paid (transactions f) = [Val 500, Val 300]
          \<and> map balduedeb (transactions f) = [Val 1500, Val 200]" ..
  show ?thesis by (intro conjI) (fact i l r e)+
qed

theorem file_totals_counterexample:
  "nonEmptyLines skippedRowCSV = [scenarioHeader, scenarioRow1, rowWithoutIdentity]
   \<and> rowsBearing (headerOf scenarioHeader) ''F1'' [scenarioRow1, rowWithoutIdentity]
       = [scenarioRow1, rowWithoutIdentity]
   \<and> js_sum (map (paidVal_of (headerOf scenarioHeader)) [scenarioRow1, rowWithoutIdentity])
       = Val 800
   \<and> map_option paymentReceived
        (map_get (snd (the (ingest (fixedClock 0) skippedRowCSV))) ''F1'') = Some (Val 500)"
proof -
  note i = scenario_ingest(2)
  have l: "nonEmptyLines skippedRowCSV = scenarioHeader # [scenarioRow1, rowWithoutIdentity]"
    by (simp add: skippedRow_lines)
  have r: "rowsOfFile (headerOf scenarioHeader) ''F1'' [scenarioRow1, rowWithoutIdentity] \<noteq> []"
    by (simp add: scenario_rowsOfFile)
  have sum: "js_sum (map (\<lambda>(i, l). paidVal_of (headerOf scenarioHeader) l)
       (rowsOfFile (headerOf scenarioHeader) ''F1'' [scenarioRow1, rowWithoutIdentity])) = Val 500"
    unfolding scenario_rowsOfFile by (simp add: js_sum_def scenario_row_values)
  from ingest_file_totals[OF i l r] obtain f where
    g: "map_get (snd (the (ingest (fixedClock 0) skippedRowCSV))) ''F1'' = Some f"
    and p: "paymentReceived f = Val 500"
    unfolding sum by (elim exE conjE)
  have 1: "map_option paymentReceived
        (map_get (snd (the (ingest (fixedClock 0) skippedRowCSV))) ''F1'') = Some (Val 500)"
    unfolding g by (simp add: p)
  have 2: "rowsBearing (headerOf scenarioHeader) ''F1'' [scenarioRow1, rowWithoutIdentity]
             = [scenarioRow1, rowWithoutIdentity]"
    by (simp add: rowsBearing_def scenario_row_values)
  have 3: "js_sum (map (paidVal_of (headerOf scenarioHeader)) [scenarioRow1, rowWithoutIdentity])
             = Val 800"
    by (simp add: js_sum_def scenario_row_values)
  show ?thesis by (intro conjI) (fact skippedRow_lines 1 2 3)+
qed

subsection \<open>One entity per natural key\<close>

text \<open>
  Claim C7. For a text that parses, the owners of the batch have pairwise distinct
  normalized identity numbers, and these are exactly the identity keys of the rows that
  are not skipped; the files have pairwise distinct file numbers, exactly the file codes
  of those rows; so there are as many owners and files as there are distinct keys. Any
  reordering of the data rows gives the same keys and the same numbers of owners and
  files. A row whose identity key or file code is empty leaves both maps as they are:
  the batch is what the rows that are not skipped produce.
\<close>

theorem one_entity_per_key:
  assumes "ingest now text = Some (userMap, fileMap)" and "nonEmptyLines text = h # rows"
  shows "distinct (map (\<lambda>u. normalizeCNIC (cnic u)) (map_values userMap))
       \<and> set (map (\<lambda>u. normalizeCNIC (cnic u)) (map_values userMap))
           = set (map (\<lambda>(i, l). normalizeCNIC (rawCNIC_of (headerOf h) l))
                   (keptRows (headerOf h) 0 rows))
       \<and> length (map_values userMap)
           = card (set (map (\<lambda>(i, l). normalizeCNIC (rawCNIC_of (headerOf h) l))
                         (keptRows (headerOf h) 0 rows)))
       \<and> distinct (map fileNo (map_values fileMap))
       \<and> set (map fileNo (map_values fileMap))
           = set (map (\<lambda>(i, l). itemCode_of (headerOf h) l) (keptRows (headerOf h) 0 rows))
       \<and> length (map_values fileMap)
           = card (set (map (\<lambda>(i, l). itemCode_of (headerOf h) l) (keptRows (headerOf h) 0 rows)))
       \<and> (\<forall>now' text' rows'. nonEmptyLines text' = h # rows' \<and> mset rows' = mset rows \<longrightarrow>
             (\<exists>userMap' fileMap'. ingest now' text' = Some (userMap', fileMap')
                \<and> set (map (\<lambda>u. normalizeCNIC (cnic u)) (map_values userMap'))
                    = set (map (\<lambda>u. normalizeCNIC (cnic u)) (map_values userMap))
                \<and> length (map_values userMap') = length (map_values userMap)
                \<and> set (map fileNo (map_values fileMap')) = set (map fileNo (map_values fileMap))
                \<and> length (map_values fileMap') = length (map_values fileMap)))
       \<and> (\<forall>idx line maps. skipped (headerOf h) line
             \<longrightarrow> processRow now (headerOf h) idx line maps = maps)
       \<and> (userMap, fileMap)
           = foldl (\<lambda>m (i, l). processRow now (headerOf h) i l m) ([], [])
               (keptRows (headerOf h) 0 rows)
       \<and> map snd (keptRows (headerOf h) 0 rows) = filter (\<lambda>l. \<not> skipped (headerOf h) l) rows"
proof -
  let ?H = "headerOf h"
  let ?uk = "\<lambda>u :: User. normalizeCNIC (cnic u)"
  let ?rk = "\<lambda>(i :: nat, l). normalizeCNIC (rawCNIC_of ?H l)"
  let ?rc = "\<lambda>(i :: nat, l). itemCode_of ?H l"
  have fact:
    "distinct (map ?uk (map_values um))"
    "distinct (map fileNo (map_values fm))"
    "set (map ?uk (map_values um)) = set (map ?rk (keptRows ?H 0 rs))"
    "set (map fileNo (map_values fm)) = set (map ?rc (keptRows ?H 0 rs))"
    "length (map_values um) = card (set (map ?rk (keptRows ?H 0 rs)))"
    "length (map_values fm) = card (set (map ?rc (keptRows ?H 0 rs)))"
    if i: "ingest n t = Some (um, fm)" and l: "nonEmptyLines t = h # rs" for n t um fm rs
  proof -
    have ku: "map ?uk (map_values um) = map fst um"
      by (rule keys_of_values[OF ingest_wellformed(3)[OF i]])
    have kf: "map fileNo (map_values fm) = map fst fm"
      by (rule keys_of_values[OF ingest_wellformed(4)[OF i]])
    show du: "distinct (map ?uk (map_values um))"
      unfolding ku by (rule ingest_wellformed(1)[OF i])
    show df: "distinct (map fileNo (map_values fm))"
      unfolding kf by (rule ingest_wellformed(2)[OF i])
    show su: "set (map ?uk (map_values um)) = set (map ?rk (keptRows ?H 0 rs))"
      unfolding ku by (rule ingest_keys(1)[OF i l])
    show sf: "set (map fileNo (map_values fm)) = set (map ?rc (keptRows ?H 0 rs))"
      unfolding kf by (rule ingest_keys(2)[OF i l])
    have "length (map_values um) = length (map ?uk (map_values um))" by simp
    also have "\<dots> = card (set (map ?uk (map_values um)))"
      using du by (simp only: distinct_card)
    finally show "length (map_values um) = card (set (map ?rk (keptRows ?H 0 rs)))"
      unfolding su .
    have "length (map_values fm) = length (map fileNo (map_values fm))" by simp
    also have "\<dots> = card (set (map fileNo (map_values fm)))"
      using df by (simp only: distinct_card)
    finally show "length (map_values fm) = card (set (map ?rc (keptRows ?H 0 rs)))"
      unfolding sf .
  qed
  note here = fact[OF assms]
  have perm: "\<exists>userMap' fileMap'. ingest now' text' = Some (userMap', fileMap')
                \<and> set (map ?uk (map_values userMap')) = set (map ?uk (map_values userMap))
                \<and> length (map_values userMap') = length (map_values userMap)
                \<and> set (map fileNo (map_values fileMap')) = set (map fileNo (map_values fileMap))
                \<and> length (map_values fileMap') = length (map_values fileMap)"
    if l': "nonEmptyLines text' = h # rows'" and m: "mset rows' = mset rows" for now' text' rows'
  proof -
    from assms have "rows \<noteq> []" by (auto simp: ingest_def)
    with m have "rows' \<noteq> []" by auto
    then obtain r rest where "rows' = r # rest" by (cases rows') auto
    with l' obtain um' fm' where i': "ingest now' text' = Some (um', fm')"
      by (metis ingest_Some surj_pair)
    have s: "set rows' = set rows" using m by (rule mset_eq_setD)
    have img: "set (map (\<lambda>(i :: nat, l). g l) (keptRows ?H 0 rs))
                 = g ` {l \<in> set rs. \<not> skipped ?H l}" for g :: "string \<Rightarrow> string" and rs
      using keptRows_lines[of ?H 0 rs] by (force simp: image_iff)
    have k: "set (map (\<lambda>(i :: nat, l). g l) (keptRows ?H 0 rows'))
               = set (map (\<lambda>(i :: nat, l). g l) (keptRows ?H 0 rows))" for g :: "string \<Rightarrow> string"
      unfolding img s ..
    note there = fact[OF i' l']
    have e1: "set (map ?uk (map_values um')) = set (map ?uk (map_values userMap))"
      unfolding there(3) here(3) by (rule k)
    have e2: "set (map fileNo (map_values fm')) = set (map fileNo (map_values fileMap))"
      unfolding there(4) here(4) by (rule k)
    have e3: "length (map_values um') = length (map_values userMap)"
      unfolding there(5) here(5) by (simp only: k)
    have e4: "length (map_values fm') = length (map_values fileMap)"
      unfolding there(6) here(6) by (simp only: k)
    from i' e1 e2 e3 e4 show ?thesis by blast
  qed
  have fold: "(userMap, fileMap)
                = foldl (\<lambda>m (i, l). processRow now ?H i l m) ([], []) (keptRows ?H 0 rows)"
    using ingest_rows[OF assms] by (simp add: processRows_as_fold)
  have kept: "map snd (keptRows ?H idx rs) = filter (\<lambda>l. \<not> skipped ?H l) rs" for rs idx
    by (induction rs arbitrary: idx) (simp_all add: keptRows_Nil keptRows_Cons)
  show ?thesis
  proof (intro conjI allI impI)
    show "distinct (map ?uk (map_values userMap))" by (rule here(1))
    show "set (map ?uk (map_values userMap)) = set (map ?rk (keptRows ?H 0 rows))"
      by (rule here(3))
    show "length (map_values userMap) = card (set (map ?rk (keptRows ?H 0 rows)))"
      by (rule here(5))
    show "distinct (map fileNo (map_values fileMap))" by (rule here(2))
    show "set (map fileNo (map_values fileMap)) = set (map ?rc (keptRows ?H 0 rows))"
      by (rule here(4))
    show "length (map_values fileMap) = card (set (map ?rc (keptRows ?H 0 rows)))"
      by (rule here(6))
    show "\<exists>userMap' fileMap'. ingest now' text' = Some (userMap', fileMap')
            \<and> set (map ?uk (map_values userMap')) = set (map ?uk (map_values userMap))
            \<and> length (map_values userMap') = length (map_values userMap)
            \<and> set (map fileNo (map_values fileMap')) = set (map fileNo (map_values fileMap))
            \<and> length (map_values fileMap') = length (map_values fileMap)"
      if "nonEmptyLines text' = h # rows' \<and> mset rows' = mset rows" for now' text' rows'
      using that perm[of text' rows' now'] by blast
    show "processRow now ?H idx line maps = maps" if "skipped ?H line" for idx line maps
      using that by (rule processRow_skipped)
    show "(userMap, fileMap)
            = foldl (\<lambda>m (i, l). processRow now ?H i l m) ([], []) (keptRows ?H 0 rows)"
      by (rule fold)
    show "map snd (keptRows ?H 0 rows) = filter (\<lambda>l. \<not> skipped ?H l) rows"
      by (rule kept)
  qed
qed

theorem one_entity_per_key_witness:
  "ingest (fixedClock 0) scenarioCSV
     = Some (fst (the (ingest (fixedClock 0) scenarioCSV)),
             snd (the (ingest (fixedClock 0) scenarioCSV)))
   \<and> nonEmptyLines scenarioCSV = scenarioHeader # [scenarioRow1, scenarioRow2]
   \<and> map (\<lambda>u. normalizeCNIC (cnic u)) (map_values (fst (the (ingest (fixedClock 0) scenarioCSV))))
       = [''3520212345671'']
   \<and> map fileNo (map_values (snd (the (ingest (fixedClock 0) scenarioCSV)))) = [''F1'']"
proof -
  note i = scenario_ingest(1)
  have l: "nonEmptyLines scenarioCSV = scenarioHeader # [scenarioRow1, scenarioRow2]"
    by (simp add: scenario_lines)
  note t = one_entity_per_key[OF i l]
  have ku: "set (map (\<lambda>(i :: nat, l). normalizeCNIC (rawCNIC_of (headerOf scenarioHeader) l))
                  (keptRows (headerOf scenarioHeader) 0 [scenarioRow1, scenarioRow2]))
              = {''3520212345671''}"
    unfolding scenario_keptRows by (simp add: scenario_row_values normalize_scenario)
  have kf: "set (map (\<lambda>(i :: nat, l). itemCode_of (headerOf scenarioHeader) l)
                  (keptRows (headerOf scenarioHeader) 0 [scenarioRow1, scenarioRow2]))
              = {''F1''}"
    unfolding scenario_keptRows by (simp add: scenario_row_values)
  note t' = t[unfolded ku kf]
  have du: "distinct (map (\<lambda>u. normalizeCNIC (cnic u))
                      (map_values (fst (the (ingest (fixedClock 0) scenarioCSV)))))"
    by (rule t'[THEN conjunct1])
  have su: "set (map (\<lambda>u. normalizeCNIC (cnic u))
                      (map_values (fst (the (ingest (fixedClock 0) scenarioCSV)))))
               = {''3520212345671''}"
    by (rule t'[THEN conjunct2, THEN conjunct1])
  have df: "distinct (map fileNo (map_values (snd (the (ingest (fixedClock 0) scenarioCSV)))))"
    by (rule t'[THEN conjunct2, THEN conjunct2, THEN conjunct2, THEN conjunct1])
  have sf: "set (map fileNo (map_values (snd (the (ingest (fixedClock 0) scenarioCSV)))))
               = {''F1''}"
    by (rule t'[THEN conjunct2, THEN conjunct2, THEN conjunct2, THEN conjunct2, THEN conjunct1])
  have 1: "map (\<lambda>u. normalizeCNIC (cnic u))
             (map_values (fst (the (ingest (fixedClock 0) scenarioCSV)))) = [''3520212345671'']"
    by (rule singleton_list[OF du su])
  have 2: "map fileNo (map_values (snd (the (ingest (fixedClock 0) scenarioCSV)))) = [''F1'']"
    by (rule singleton_list[OF df sf])
  show ?thesis by (intro conjI) (fact i l 1 2)+
qed

subsection \<open>Owner linkage of the files\<close>

lemma ingest_owner_linkage:
  assumes "ingest now text = Some (userMap, fileMap)" and "f \<in> set (map_values fileMap)"
  shows "\<exists>u \<in> set (map_values userMap).
           normalizeCNIC (cnic u) = normalizeCNIC (ownerCNIC f) \<and> name u = ownerName f"
proof -
  from assms(2) obtain c where "(c, f) \<in> set fileMap" by (auto simp: map_values_def)
  with ingest_wellformed(5)[OF assms(1)] obtain u where
    u: "map_of userMap (normalizeCNIC (ownerCNIC f)) = Some u" and n: "name u = ownerName f"
    by auto
  from u have m: "(normalizeCNIC (ownerCNIC f), u) \<in> set userMap" by (rule map_of_SomeD)
  with ingest_wellformed(3)[OF assms(1)]
  have "normalizeCNIC (cnic u) = normalizeCNIC (ownerCNIC f)" by auto
  moreover from m have "u \<in> set (map_values userMap)" by (force simp: map_values_def)
  ultimately show ?thesis using n by blast
qed

lemma ingest_owner_raw:
  assumes "ingest now text = Some (userMap, fileMap)" and "nonEmptyLines text = h # rows"
    and "f \<in> set (map_values fileMap)"
  shows "\<exists>j l rest. rowsOfFile (headerOf h) (fileNo f) rows = (j, l) # rest
           \<and> ownerCNIC f = rawCNIC_of (headerOf h) l"
proof -
  have g: "map_get fileMap (fileNo f) = Some f"
    using keyed_map_get[OF ingest_wellformed(2)[OF assms(1)] ingest_wellformed(4)[OF assms(1)],
        of "fileNo f" f] assms(3) by simp
  show ?thesis
  proof (cases "rowsOfFile (headerOf h) (fileNo f) rows")
    case Nil
    from ingest_file_absent[OF assms(1,2) Nil] g show ?thesis by simp
  next
    case (Cons p rest)
    obtain j l where p: "p = (j, l)" by (cases p)
    from ingest_file[OF assms(1,2) Cons[unfolded p]] g obtain u where
      "f = addRows now (headerOf h) ((j, l) # rest) (newFile (headerOf h) l u)" by auto
    then have "ownerCNIC f = rawCNIC_of (headerOf h) l"
      by (simp add: addRows_kept_fields newFile_fields)
    with Cons p show ?thesis by blast
  qed
qed

text \<open>
  Claim C9, amended. Every PropertyFile of a batch holds, as owner linkage, the display
  name of an Owner of the same batch together with a raw identity string: the identity
  cell, as written, of the first row that is not skipped and bears the file's code. The
  normalization of that string is the normalized identity number of that Owner.
\<close>

theorem owner_linkage_of_files:
  assumes "ingest now text = Some (userMap, fileMap)" and "nonEmptyLines text = h # rows"
    and "f \<in> set (map_values fileMap)"
  shows "(\<exists>u \<in> set (map_values userMap).
            normalizeCNIC (cnic u) = normalizeCNIC (ownerCNIC f) \<and> name u = ownerName f)
         \<and> (\<exists>j l rest. rowsOfFile (headerOf h) (fileNo f) rows = (j, l) # rest
                \<and> ownerCNIC f = rawCNIC_of (headerOf h) l)"
  using ingest_owner_linkage[OF assms(1,3)] ingest_owner_raw[OF assms] by (rule conjI)

lemma scenario_first_file:
  "map_values (snd (the (ingest (fixedClock 0) scenarioCSV))) \<noteq> []"
  "hd (map_values (snd (the (ingest (fixedClock 0) scenarioCSV))))
     \<in> set (map_values (snd (the (ingest (fixedClock 0) scenarioCSV))))"
  "fileNo (hd (map_values (snd (the (ingest (fixedClock 0) scenarioCSV))))) = ''F1''"
  "map_values (snd (the (ingest (fixedClock 0) scenarioCSV)))
     = [hd (map_values (snd (the (ingest (fixedClock 0) scenarioCSV))))]"
proof -
  let ?fm = "snd (the (ingest (fixedClock 0) scenarioCSV))"
  from scenario_keys(2) obtain f where fm: "?fm = [(''F1'', f)]" by (cases ?fm) auto
  have k: "map fileNo (map_values ?fm) = map fst ?fm"
    by (rule keys_of_values[OF ingest_wellformed(4)[OF scenario_ingest(1)]])
  show "map_values ?fm \<noteq> []" "hd (map_values ?fm) \<in> set (map_values ?fm)"
    "map_values ?fm = [hd (map_values ?fm)]"
    by (simp_all add: fm map_values_def)
  from k show "fileNo (hd (map_values ?fm)) = ''F1''"
    by (simp add: fm map_values_def)
qed

theorem owner_linkage_of_files_witness:
  "ingest (fixedClock 0) scenarioCSV
     = Some (fst (the (ingest (fixedClock 0) scenarioCSV)),
             snd (the (ingest (fixedClock 0) scenarioCSV)))
   \<and> nonEmptyLines scenarioCSV = scenarioHeader # [scenarioRow1, scenarioRow2]
   \<and> hd (map_values (snd (the (ingest (fixedClock 0) scenarioCSV))))
       \<in> set (map_values (snd (the (ingest (fixedClock 0) scenarioCSV))))
   \<and> (\<exists>u \<in> set (map_values (fst (the (ingest (fixedClock 0) scenarioCSV)))).
         normalizeCNIC (cnic u) = ''3520212345671''
         \<and> name u = ownerName (hd (map_values (snd (the (ingest (fixedClock 0) scenarioCSV))))))
   \<and> ownerCNIC (hd (map_values (snd (the (ingest (fixedClock 0) scenarioCSV)))))
       = ''35202-1234567-1''"
proof -
  let ?f = "hd (map_values (snd (the (ingest (fixedClock 0) scenarioCSV))))"
  note i = scenario_ingest(1)
  have l: "nonEmptyLines scenarioCSV = scenarioHeader # [scenarioRow1, scenarioRow2]"
    by (simp add: scenario_lines)
  note m = scenario_first_file(2)
  note t = owner_linkage_of_files[OF i l m]
  from t obtain j l' rest where
    r: "rowsOfFile (headerOf scenarioHeader) (fileNo ?f) [scenarioRow1, scenarioRow2] = (j, l') # rest"
    and o: "ownerCNIC ?f = rawCNIC_of (headerOf scenarioHeader) l'"
    by blast
  from r have "l' = scenarioRow1"
    unfolding scenario_first_file(3) scenario_rowsOfFile by simp
  with o have raw: "ownerCNIC ?f = ''35202-1234567-1''"
    by (simp add: scenario_row_values)
  from t have "\<exists>u \<in> set (map_values (fst (the (ingest (fixedClock 0) scenarioCSV)))).
         normalizeCNIC (cnic u) = normalizeCNIC (ownerCNIC ?f) \<and> name u = ownerName ?f"
    by (rule conjunct1)
  then have own: "\<exists>u \<in> set (map_values (fst (the (ingest (fixedClock 0) scenarioCSV)))).
         normalizeCNIC (cnic u) = ''3520212345671'' \<and> name u = ownerName ?f"
    unfolding raw normalize_scenario .
  show ?thesis by (intro conjI) (fact i l m own raw)+
qed

theorem owner_linkage_counterexample:
  "map ownerCNIC (map_values (snd (the (ingest (fixedClock 0) scenarioCSV))))
     = [''35202-1234567-1'']
   \<and> normalizeCNIC ''35202-1234567-1'' = ''3520212345671''"
proof -
  let ?f = "hd (map_values (snd (the (ingest (fixedClock 0) scenarioCSV))))"
  note i = scenario_ingest(1)
  have l: "nonEmptyLines scenarioCSV = scenarioHeader # [scenarioRow1, scenarioRow2]"
    by (simp add: scenario_lines)
  from ingest_owner_raw[OF i l scenario_first_file(2)] obtain j l' rest where
    r: "rowsOfFile (headerOf scenarioHeader) (fileNo ?f) [scenarioRow1, scenarioRow2] = (j, l') # rest"
    and o: "ownerCNIC ?f = rawCNIC_of (headerOf scenarioHeader) l'"
    by blast
  from r have "l' = scenarioRow1"
    unfolding scenario_first_file(3) scenario_rowsOfFile by simp
  with o have raw: "ownerCNIC ?f = ''35202-1234567-1''"
    by (simp add: scenario_row_values)
  have "map ownerCNIC (map_values (snd (the (ingest (fixedClock 0) scenarioCSV))))
          = map ownerCNIC [?f]"
    using scenario_first_file(4) by simp
  then have 1: "map ownerCNIC (map_values (snd (the (ingest (fixedClock 0) scenarioCSV))))
          = [''35202-1234567-1'']"
    by (simp add: raw)
  show ?thesis by (intro conjI) (fact 1 normalize_scenario)+
qed

subsection \<open>One normalization for every identity comparison\<close>

lemma ingest_files_matched:
  assumes "ingest now text = Some (userMap, fileMap)" and "f \<in> set (map_values fileMap)"
  shows "\<exists>u \<in> set (map_values userMap). f \<in> set (userFiles (Some u) (map_values fileMap))"
proof -
  from ingest_owner_linkage[OF assms] obtain u where
    "u \<in> set (map_values userMap)"
    and "normalizeCNIC (cnic u) = normalizeCNIC (ownerCNIC f)" by blast
  with assms(2) show ?thesis
    by (intro bexI[of _ u]) (simp_all add: userFiles_def userCnicNormalized_def)
qed

text \<open>
  Claim C5, amended. The identity natural key of a raw identity string is the string
  with every character removed that is not a decimal digit or the capital letter X; the
  string is not upper-cased, so a lower-case x is removed as well, and the key equals the
  upper-case-then-strip key of the specification exactly when the string holds no
  lower-case x. The three places use this one function: every owner of
  an ingested batch is filed under the key of its identity field, the incremental merge
  keys owners by the same key (merging an ingested batch into an empty collection gives
  the batch back), and the files shown to a user are those whose owner identity has the
  user's key, which finds for every ingested file an owner of the batch.
\<close>

theorem identity_key_normalization:
  "normalizeCNIC s = filter (\<lambda>c. c \<in> set ''0123456789X'') s
   \<and> (normalizeCNIC_spec s = normalizeCNIC s \<longleftrightarrow> CHR ''x'' \<notin> set s)
   \<and> (ingest now text = Some (userMap, fileMap) \<longrightarrow>
        (\<forall>(k, u) \<in> set userMap. k = normalizeCNIC (cnic u))
        \<and> mergeByKey (\<lambda>u. normalizeCNIC (cnic u)) [] (map_values userMap) = map_values userMap
        \<and> (\<forall>f \<in> set (map_values fileMap).
              \<exists>u \<in> set (map_values userMap). f \<in> set (userFiles (Some u) (map_values fileMap))))
   \<and> users (fst (handleMassImport cloud idb data None st))
       = mergeByKey (\<lambda>u. normalizeCNIC (cnic u)) (users st) (data_users data)
   \<and> userFiles (Some u) fs
       = filter (\<lambda>f. normalizeCNIC (ownerCNIC f) = normalizeCNIC (cnic u)) fs"
proof (intro conjI impI)
  show "normalizeCNIC s = filter (\<lambda>c. c \<in> set ''0123456789X'') s"
    by (rule normalizeCNIC_alphabet)
  show "normalizeCNIC_spec s = normalizeCNIC s \<longleftrightarrow> CHR ''x'' \<notin> set s"
    by (rule normalizeCNIC_spec_iff)
  show "\<forall>(k, u) \<in> set userMap. k = normalizeCNIC (cnic u)"
    if "ingest now text = Some (userMap, fileMap)"
    using ingest_wellformed(3)[OF that] by auto
  show "mergeByKey (\<lambda>u. normalizeCNIC (cnic u)) [] (map_values userMap) = map_values userMap"
    if "ingest now text = Some (userMap, fileMap)"
    by (rule mergeByKey_into_empty[OF ingest_wellformed(1)[OF that] ingest_wellformed(3)[OF that]])
  show "\<forall>f \<in> set (map_values fileMap).
          \<exists>u \<in> set (map_values userMap). f \<in> set (userFiles (Some u) (map_values fileMap))"
    if "ingest now text = Some (userMap, fileMap)"
    using ingest_files_matched[OF that] by blast
  show "users (fst (handleMassImport cloud idb data None st))
          = mergeByKey (\<lambda>u. normalizeCNIC (cnic u)) (users st) (data_users data)"
    by (simp add: handleMassImport_state)
  show "userFiles (Some u) fs
          = filter (\<lambda>f. normalizeCNIC (ownerCNIC f) = normalizeCNIC (cnic u)) fs"
    by (simp add: userFiles_def userCnicNormalized_def)
qed

theorem identity_key_normalization_witness:
  "CHR ''x'' \<notin> set ''35202-1234567-1''
   \<and> normalizeCNIC_spec ''35202-1234567-1'' = ''3520212345671''
   \<and> ingest (fixedClock 0) scenarioCSV
       = Some (fst (the (ingest (fixedClock 0) scenarioCSV)),
               snd (the (ingest (fixedClock 0) scenarioCSV)))
   \<and> mergeByKey (\<lambda>u. normalizeCNIC (cnic u)) []
         (map_values (fst (the (ingest (fixedClock 0) scenarioCSV))))
       = map_values (fst (the (ingest (fixedClock 0) scenarioCSV)))"
proof -
  note i = scenario_ingest(1)
  have x: "CHR ''x'' \<notin> set ''35202-1234567-1''" by simp
  note t = identity_key_normalization[of "''35202-1234567-1''" "fixedClock 0" scenarioCSV
      "fst (the (ingest (fixedClock 0) scenarioCSV))" "snd (the (ingest (fixedClock 0) scenarioCSV))"]
  from t[THEN conjunct2, THEN conjunct1, THEN iffD2, OF x]
  have 1: "normalizeCNIC_spec ''35202-1234567-1'' = ''3520212345671''"
    by (simp only: normalize_scenario)
  from t[THEN conjunct2, THEN conjunct2, THEN conjunct1, rule_format, OF i]
  have 2: "mergeByKey (\<lambda>u. normalizeCNIC (cnic u)) []
         (map_values (fst (the (ingest (fixedClock 0) scenarioCSV))))
       = map_values (fst (the (ingest (fixedClock 0) scenarioCSV)))"
    by (elim conjE)
  show ?thesis by (intro conjI) (fact x 1 i 2)+
qed

theorem identity_key_counterexample:
  "normalizeCNIC ''35202-1234567-x'' = ''352021234567''
   \<and> normalizeCNIC_spec ''35202-1234567-x'' = ''352021234567X''"
  using spec_counter by (rule conjI)


end
